theory Spec2Isabelle
  imports Main "HOL-Library.Word"
begin

section \<open>The lantern command protocol\<close>

text \<open>
  A shallow embedding of \<^verbatim>\<open>lantern.py\<close>: the command classes and their registry, the
  wire codec (\<^verbatim>\<open>CommandProtocol\<close>), the frame reconstruction of \<^verbatim>\<open>CommandTransport\<close>
  over an abstract reader, the two readers of \<^verbatim>\<open>test_lantern.py\<close>, and the receive
  loop of \<^verbatim>\<open>LanternClient\<close>.

  Python's \<^verbatim>\<open>bytes\<close> is a list of 8-bit words, Python's integers are \<open>nat\<close> where the
  source only produces lengths and class constants and \<open>int\<close> where a difference may be
  negative. Every exception the modelled code can raise is a value of \<open>error\<close>. The
  \<^verbatim>\<open>await asyncio.sleep\<close> pauses and the log calls have no effect on the values computed
  and are left out.
\<close>

subsection \<open>Errors and the struct module\<close>

type_synonym byte = "8 word"

datatype error = StructError | TypeError | ValueError | AttributeError | BaseException

text \<open>\<^verbatim>\<open>pack('>BH', t, n)\<close>: one unsigned byte and one big-endian unsigned 16-bit
  integer; \<^verbatim>\<open>struct.error\<close> when an argument is out of range.\<close>

definition pack_BH :: "nat \<Rightarrow> nat \<Rightarrow> error + byte list" where
  "pack_BH t n =
     (if t \<le> 255 \<and> n \<le> 65535
      then Inr [of_nat t, of_nat (n div 256), of_nat (n mod 256)]
      else Inl StructError)"

text \<open>\<^verbatim>\<open>pack(f'>{n}s', v)\<close>: the first \<open>n\<close> bytes of \<open>v\<close>, padded with zero bytes
  when \<open>v\<close> is shorter; \<^verbatim>\<open>struct.error\<close> when \<open>v\<close> is \<^verbatim>\<open>None\<close>.\<close>

definition pack_s :: "nat \<Rightarrow> byte list option \<Rightarrow> error + byte list" where
  "pack_s n v =
     (case v of
        None \<Rightarrow> Inl StructError
      | Some bs \<Rightarrow> Inr (take n bs @ replicate (n - length bs) 0))"

text \<open>\<^verbatim>\<open>pack('>BBB', r, g, b)\<close> on Python integers.\<close>

definition pack_BBB :: "int \<Rightarrow> int \<Rightarrow> int \<Rightarrow> error + byte list" where
  "pack_BBB r g b =
     (if 0 \<le> r \<and> r \<le> 255 \<and> 0 \<le> g \<and> g \<le> 255 \<and> 0 \<le> b \<and> b \<le> 255
      then Inr [of_int r, of_int g, of_int b]
      else Inl StructError)"

text \<open>\<^verbatim>\<open>unpack('>BH', buf)\<close>: the buffer must hold exactly three bytes.\<close>

definition unpack_BH :: "byte list \<Rightarrow> error + (nat \<times> nat)" where
  "unpack_BH buf =
     (case buf of
        [t, hi, lo] \<Rightarrow> Inr (unat t, unat hi * 256 + unat lo)
      | _ \<Rightarrow> Inl StructError)"

text \<open>\<^verbatim>\<open>unpack_from(f'>{n}s', buf, off)\<close>: \<open>n\<close> bytes from offset \<open>off\<close>; the buffer
  must hold at least \<open>off + n\<close> bytes.\<close>

definition unpack_from_s :: "nat \<Rightarrow> byte list \<Rightarrow> nat \<Rightarrow> error + byte list" where
  "unpack_from_s n buf off =
     (if off + n \<le> length buf then Inr (take n (drop off buf)) else Inl StructError)"

text \<open>\<^verbatim>\<open>unpack('>BBB', v)\<close>: \<^verbatim>\<open>TypeError\<close> on \<^verbatim>\<open>None\<close>, \<^verbatim>\<open>struct.error\<close> unless \<open>v\<close>
  holds exactly three bytes.\<close>

definition unpack_BBB :: "byte list option \<Rightarrow> error + (nat \<times> nat \<times> nat)" where
  "unpack_BBB v =
     (case v of
        None \<Rightarrow> Inl TypeError
      | Some [r, g, b] \<Rightarrow> Inr (unat r, unat g, unat b)
      | Some _ \<Rightarrow> Inl StructError)"

subsection \<open>Command classes and instances\<close>

text \<open>A command class carries its name and the class attribute \<^verbatim>\<open>type\<close>; the classes are
  open (any subclass of \<^verbatim>\<open>BaseCommand\<close> may be declared), so a class is a record and not
  a constructor of a closed datatype.\<close>

record command_class =
  class_name :: string
  class_type :: nat

definition BaseCommand :: command_class where
  "BaseCommand = \<lparr>class_name = ''BaseCommand'', class_type = 0x00\<rparr>"

definition CommandUnknown :: command_class where
  "CommandUnknown = \<lparr>class_name = ''CommandUnknown'', class_type = 0x99\<rparr>"

definition CommandOn :: command_class where
  "CommandOn = \<lparr>class_name = ''CommandOn'', class_type = 0x12\<rparr>"

definition CommandOff :: command_class where
  "CommandOff = \<lparr>class_name = ''CommandOff'', class_type = 0x13\<rparr>"

definition CommandColor :: command_class where
  "CommandColor = \<lparr>class_name = ''CommandColor'', class_type = 0x20\<rparr>"

text \<open>An instance: its class and the two attributes set by \<^verbatim>\<open>BaseCommand.__init__\<close>.\<close>

record command =
  cls :: command_class
  cmd_value :: "byte list option"
  cmd_length :: nat

definition cmd_type :: "command \<Rightarrow> nat" where
  "cmd_type c = class_type (cls c)"

text \<open>\<^verbatim>\<open>BaseCommand.__init__(self, value=None)\<close>, inherited unchanged by every class of the
  module: it stores the payload and its length and checks nothing.\<close>

definition init :: "command_class \<Rightarrow> byte list option \<Rightarrow> command" where
  "init k v =
     \<lparr>cls = k, cmd_value = v,
      cmd_length = (case v of None \<Rightarrow> 0 | Some bs \<Rightarrow> length bs)\<rparr>"

text \<open>\<^verbatim>\<open>__eq__\<close> compares the hashes of \<^verbatim>\<open>(type, length, value)\<close>. Equal triples have equal
  hashes, so \<open>command_eq\<close>, the equality of the triples, implies Python's \<^verbatim>\<open>==\<close>.\<close>

definition command_eq :: "command \<Rightarrow> command \<Rightarrow> bool" where
  "command_eq a b \<longleftrightarrow>
     (cmd_type a, cmd_length a, cmd_value a) = (cmd_type b, cmd_length b, cmd_value b)"

text \<open>\<^verbatim>\<open>CommandColor.rgb\<close> and \<^verbatim>\<open>CommandColor.from_rgb\<close>. Of the classes of the module
  only \<^verbatim>\<open>CommandColor\<close> has the property. A class carries no parent here, so a subclass
  of \<^verbatim>\<open>CommandColor\<close>, which would inherit the property, is outside this model of
  \<open>rgb\<close>; it is applied to instances of \<^verbatim>\<open>CommandColor\<close> only.\<close>

definition rgb :: "command \<Rightarrow> error + (nat \<times> nat \<times> nat)" where
  "rgb c = (if cls c = CommandColor then unpack_BBB (cmd_value c) else Inl AttributeError)"

definition from_rgb :: "int \<Rightarrow> int \<Rightarrow> int \<Rightarrow> error + command" where
  "from_rgb r g b =
     (case pack_BBB r g b of
        Inl e \<Rightarrow> Inl e
      | Inr v \<Rightarrow> Inr (init CommandColor (Some v)))"

subsection \<open>CommandProtocol: registry and codec\<close>

type_synonym registry = "nat \<rightharpoonup> command_class"

definition encode :: "command \<Rightarrow> error + byte list" where
  "encode c =
     (case pack_BH (cmd_type c) (cmd_length c) of
        Inl e \<Rightarrow> Inl e
      | Inr message \<Rightarrow>
          if cmd_length c > 0
          then (case pack_s (cmd_length c) (cmd_value c) of
                  Inl e \<Rightarrow> Inl e
                | Inr payload \<Rightarrow> Inr (message @ payload))
          else Inr message)"

text \<open>\<^verbatim>\<open>decode\<close> returns \<open>None\<close> for Python's \<^verbatim>\<open>None\<close>; the registered class is called
  on the payload, and the constructor has no failing branch.\<close>

definition decode :: "registry \<Rightarrow> nat \<Rightarrow> byte list option \<Rightarrow> command option" where
  "decode reg ty v =
     (case reg ty of
        None \<Rightarrow> None
      | Some k \<Rightarrow> Some (init k v))"

text \<open>\<^verbatim>\<open>register\<close> mutates the class-level dictionary: the registry is passed in and
  returned, together with the outcome of the call.\<close>

definition register :: "command_class \<Rightarrow> registry \<Rightarrow> (error + unit) \<times> registry" where
  "register k reg =
     (if class_type k \<in> dom reg then (Inl ValueError, reg)
      else (Inr (), reg(class_type k \<mapsto> k)))"

text \<open>The metaclass registers every class when it is declared, in the order of the
  module: the registry once the module is loaded.\<close>

definition initial_registry :: registry where
  "initial_registry =
     foldl (\<lambda>reg k. snd (register k reg)) Map.empty
       [BaseCommand, CommandUnknown, CommandOn, CommandOff, CommandColor]"

subsection \<open>Readers\<close>

text \<open>The transport only calls \<^verbatim>\<open>read(n)\<close> and \<^verbatim>\<open>at_eof()\<close> of its reader. A reader
  is a state of any type \<open>'r\<close> together with these two operations; \<^verbatim>\<open>read\<close> returns
  the bytes and the reader's new state.\<close>

record 'r reader_ops =
  read :: "nat \<Rightarrow> 'r \<Rightarrow> byte list \<times> 'r"
  at_eof :: "'r \<Rightarrow> bool"

text \<open>The two readers of \<^verbatim>\<open>test_lantern.py\<close>; their state is the data not yet read.
  \<^verbatim>\<open>DefaultReader.read(n)\<close> hands out \<^verbatim>\<open>data[:n]\<close>, \<^verbatim>\<open>OneByteAtATimeReader.read(n)\<close>
  calls it with 1.\<close>

definition DefaultReader :: "byte list reader_ops" where
  "DefaultReader =
     \<lparr>read = (\<lambda>n data. (take n data, drop n data)),
      at_eof = (\<lambda>data. length data = 0)\<rparr>"

definition OneByteAtATimeReader :: "byte list reader_ops" where
  "OneByteAtATimeReader =
     \<lparr>read = (\<lambda>n data. read DefaultReader 1 data),
      at_eof = at_eof DefaultReader\<rparr>"

subsection \<open>CommandTransport\<close>

definition COMMAND_HEADER_LENGTH :: nat where
  "COMMAND_HEADER_LENGTH = 3"

record 'r transport =
  reader :: 'r
  read_buffer :: "byte list"

text \<open>\<^verbatim>\<open>CommandTransport(reader, writer)\<close>: a transport with an empty buffer.\<close>

definition new_transport :: "'r \<Rightarrow> 'r transport" where
  "new_transport r = \<lparr>reader = r, read_buffer = []\<rparr>"

text \<open>The loop of \<^verbatim>\<open>_retry_read\<close>, with \<^verbatim>\<open>read_so_far\<close> as accumulator. It need not end
  (a reader may return nothing for ever without being at end-of-stream): \<open>None\<close> is
  the run that never returns.\<close>

partial_function (option) retry_read_loop ::
  "'r reader_ops \<Rightarrow> nat \<Rightarrow> byte list \<Rightarrow> 'r \<Rightarrow> (byte list \<times> 'r) option" where
  "retry_read_loop ops n read_so_far r =
     (if length read_so_far < n
      then (case read ops (n - length read_so_far) r of
              (chunk, r') \<Rightarrow>
                if at_eof ops r' then Some (read_so_far @ chunk, r')
                else retry_read_loop ops n (read_so_far @ chunk) r')
      else Some (read_so_far, r))"

definition retry_read :: "'r reader_ops \<Rightarrow> nat \<Rightarrow> 'r \<Rightarrow> (byte list \<times> 'r) option" where
  "retry_read ops n r = retry_read_loop ops n [] r"

definition bytes_missing :: "'r transport \<Rightarrow> nat \<Rightarrow> int" where
  "bytes_missing tr required_length = int required_length - int (length (read_buffer tr))"

text \<open>The end of \<^verbatim>\<open>_process_buffer\<close>: drop the frame from the buffer and decode.\<close>

definition consume :: "registry \<Rightarrow> nat \<Rightarrow> nat \<Rightarrow> byte list option \<Rightarrow> 'r transport
    \<Rightarrow> (error + command option) \<times> 'r transport" where
  "consume reg ty len v tr =
     (Inr (decode reg ty v),
      tr\<lparr>read_buffer := drop (len + COMMAND_HEADER_LENGTH) (read_buffer tr)\<rparr>)"

text \<open>The \<^verbatim>\<open>while\<close> loop of \<^verbatim>\<open>_process_buffer\<close> (entered when \<open>len > 0\<close>) and the code
  after it. A \<^verbatim>\<open>return None\<close> inside the loop ends the call.\<close>

partial_function (option) process_payload ::
  "'r reader_ops \<Rightarrow> registry \<Rightarrow> nat \<Rightarrow> nat \<Rightarrow> 'r transport
    \<Rightarrow> ((error + command option) \<times> 'r transport) option" where
  "process_payload ops reg ty len tr =
     (if bytes_missing tr (len + COMMAND_HEADER_LENGTH) > 0
      then if at_eof ops (reader tr) then Some (Inr None, tr)
           else Option.bind
                  (retry_read ops (nat (bytes_missing tr (len + COMMAND_HEADER_LENGTH)))
                     (reader tr))
                  (\<lambda>(bs, r'). process_payload ops reg ty len
                                (tr\<lparr>reader := r', read_buffer := read_buffer tr @ bs\<rparr>))
      else (case unpack_from_s len (read_buffer tr) COMMAND_HEADER_LENGTH of
              Inl e \<Rightarrow> Some (Inl e, tr)
            | Inr v \<Rightarrow> Some (consume reg ty len (Some v) tr)))"

definition process_buffer ::
  "'r reader_ops \<Rightarrow> registry \<Rightarrow> 'r transport
    \<Rightarrow> ((error + command option) \<times> 'r transport) option" where
  "process_buffer ops reg tr =
     (case unpack_BH (read_buffer tr) of
        Inl e \<Rightarrow> Some (Inl e, tr)
      | Inr (ty, len) \<Rightarrow>
          if len > 0 then process_payload ops reg ty len tr
          else Some (consume reg ty len None tr))"

text \<open>\<^verbatim>\<open>recv\<close>: the header loop, then \<^verbatim>\<open>_process_buffer\<close>. The result is \<open>None\<close> when
  the call never returns, \<open>Some (Inl e, _)\<close> when it raises \<open>e\<close>, and
  \<open>Some (Inr c, _)\<close> when it returns \<open>c\<close> (\<open>None\<close> for "no command").\<close>

partial_function (option) recv ::
  "'r reader_ops \<Rightarrow> registry \<Rightarrow> 'r transport
    \<Rightarrow> ((error + command option) \<times> 'r transport) option" where
  "recv ops reg tr =
     (if bytes_missing tr COMMAND_HEADER_LENGTH > 0
      then if at_eof ops (reader tr) then Some (Inr None, tr)
           else Option.bind
                  (retry_read ops (nat (bytes_missing tr COMMAND_HEADER_LENGTH)) (reader tr))
                  (\<lambda>(bs, r'). recv ops reg
                                (tr\<lparr>reader := r', read_buffer := read_buffer tr @ bs\<rparr>))
      else process_buffer ops reg tr)"


text \<open>The type and the payload of a frame, read the way \<^verbatim>\<open>_process_buffer\<close> reads them:
  the header is unpacked from the first three bytes, and the payload is \<^verbatim>\<open>None\<close> when
  the length field is 0.\<close>

definition frame_fields :: "byte list \<Rightarrow> error + (nat \<times> byte list option)" where
  "frame_fields frame =
     (case unpack_BH (take COMMAND_HEADER_LENGTH frame) of
        Inl e \<Rightarrow> Inl e
      | Inr (ty, len) \<Rightarrow>
          if len > 0
          then (case unpack_from_s len frame COMMAND_HEADER_LENGTH of
                  Inl e \<Rightarrow> Inl e
                | Inr v \<Rightarrow> Inr (ty, Some v))
          else Inr (ty, None))"

text \<open>\<^verbatim>\<open>[await transport.recv() for _ in range(n)]\<close>, as the tests call it: \<open>n\<close>
  successive calls on one transport, collecting what they return; an exception of one
  call ends the sequence.\<close>

fun recv_times ::
  "'r reader_ops \<Rightarrow> registry \<Rightarrow> nat \<Rightarrow> 'r transport
    \<Rightarrow> ((error + command option list) \<times> 'r transport) option" where
  "recv_times ops reg 0 tr = Some (Inr [], tr)"
| "recv_times ops reg (Suc n) tr =
     Option.bind (recv ops reg tr)
       (\<lambda>(res, tr').
           case res of
             Inl e \<Rightarrow> Some (Inl e, tr')
           | Inr c \<Rightarrow>
               Option.bind (recv_times ops reg n tr')
                 (\<lambda>(rest, tr'').
                     case rest of
                       Inl e \<Rightarrow> Some (Inl e, tr'')
                     | Inr cs \<Rightarrow> Some (Inr (c # cs), tr'')))"

text \<open>\<^verbatim>\<open>reduce(lambda acc, x: acc + CommandProtocol.encode(x), commands, bytearray())\<close>
  of \<^verbatim>\<open>test_recv_several_commands\<close>: the encodings back to back.\<close>

fun encode_all :: "command list \<Rightarrow> error + byte list" where
  "encode_all [] = Inr []"
| "encode_all (c # cs) =
     (case encode c of
        Inl e \<Rightarrow> Inl e
      | Inr frame \<Rightarrow>
          (case encode_all cs of
             Inl e \<Rightarrow> Inl e
           | Inr rest \<Rightarrow> Inr (frame @ rest)))"

subsection \<open>Classes of readers\<close>

text \<open>What the transport may assume of a reader. \<open>bounded_reads\<close>: a read of \<open>n > 0\<close>
  bytes returns at most \<open>n\<close> (the transport never asks for 0 bytes).\<close>

definition bounded_reads :: "'r reader_ops \<Rightarrow> bool" where
  "bounded_reads ops \<longleftrightarrow> (\<forall>n r. 0 < n \<longrightarrow> length (fst (read ops n r)) \<le> n)"

text \<open>A read stutters when it is made on a reader that is not at end-of-stream, returns
  no byte and leaves the reader short of end-of-stream: \<^verbatim>\<open>_retry_read\<close> then sleeps and
  asks again for the same number of bytes. \<open>stutters ops n\<close> relates the reader after
  such a read of \<open>n\<close> bytes to the reader before it. A reader \<open>eventually_delivers\<close>
  when no request can be answered by stuttering for ever: any number of empty reads
  may come before a byte or the end of the stream, but not infinitely many.\<close>

definition stutters :: "'r reader_ops \<Rightarrow> nat \<Rightarrow> ('r \<times> 'r) set" where
  "stutters ops n =
     {(r', r). \<not> at_eof ops r \<and> read ops n r = ([], r') \<and> \<not> at_eof ops r'}"

definition eventually_delivers :: "'r reader_ops \<Rightarrow> bool" where
  "eventually_delivers ops \<longleftrightarrow> (\<forall>n. 0 < n \<longrightarrow> wf (stutters ops n))"

text \<open>A reader over a finite sequence of bytes that hands out, at each read of \<open>n > 0\<close>
  bytes, some non-empty prefix of at most \<open>n\<close> bytes of what is left, and is at
  end-of-stream when nothing is left. Both readers of the tests are of this kind.\<close>

definition stream_reader :: "byte list reader_ops \<Rightarrow> bool" where
  "stream_reader ops \<longleftrightarrow>
     (\<forall>d. at_eof ops d = (d = [])) \<and>
     (\<forall>n d. 0 < n \<longrightarrow>
        (\<exists>k. read ops n d = (take k d, drop k d) \<and> k \<le> n \<and> (d \<noteq> [] \<longrightarrow> 0 < k)))"

text \<open>A peer that sends nothing and does not close: every read returns no byte, and the
  reader is never at end-of-stream.\<close>

definition SilentReader :: "unit reader_ops" where
  "SilentReader = \<lparr>read = (\<lambda>n r. ([], r)), at_eof = (\<lambda>r. False)\<rparr>"

text \<open>A slow peer: the reader answers every other read with no byte, and otherwise as
  \<^verbatim>\<open>DefaultReader\<close> does. Its state is the flag that tells whether the next read delivers,
  and the data not yet read.\<close>

definition StutteringReader :: "(bool \<times> byte list) reader_ops" where
  "StutteringReader =
     \<lparr>read = (\<lambda>n (ready, data).
                if ready then (take n data, (False, drop n data)) else ([], (True, data))),
      at_eof = (\<lambda>(ready, data). length data = 0)\<rparr>"

text \<open>The outcome of a call of \<^verbatim>\<open>recv\<close> that neither raised nor left bytes behind
  a command it returned.\<close>

definition recv_ok :: "(error + command option) \<times> 'r transport \<Rightarrow> bool" where
  "recv_ok y \<longleftrightarrow> (\<exists>c. fst y = Inr c \<and> (c \<noteq> None \<longrightarrow> read_buffer (snd y) = []))"

subsection \<open>The result of recv on a finite stream, in closed form\<close>

text \<open>The four steps of the specification of \<^verbatim>\<open>recv\<close>, for a transport whose reader
  holds the bytes \<open>reader tr\<close> still to come: complete the header from the stream,
  parse it, complete the payload, consume the frame and decode. These functions are
  compared with \<open>recv\<close> below; they are not part of the program.\<close>

definition payload_on_stream ::
  "registry \<Rightarrow> nat \<Rightarrow> nat \<Rightarrow> byte list \<Rightarrow> byte list
    \<Rightarrow> (error + command option) \<times> byte list transport" where
  "payload_on_stream reg ty len hdr rest =
     (if length rest < len
      then (Inr None, \<lparr>reader = [], read_buffer = hdr @ rest\<rparr>)
      else (Inr (decode reg ty (Some (take len rest))),
            \<lparr>reader = drop len rest, read_buffer = []\<rparr>))"

definition frame_on_stream ::
  "registry \<Rightarrow> byte list \<Rightarrow> byte list
    \<Rightarrow> (error + command option) \<times> byte list transport" where
  "frame_on_stream reg hdr rest =
     (case unpack_BH hdr of
        Inl e \<Rightarrow> (Inl e, \<lparr>reader = rest, read_buffer = hdr\<rparr>)
      | Inr (ty, len) \<Rightarrow>
          if len = 0 then (Inr (decode reg ty None), \<lparr>reader = rest, read_buffer = []\<rparr>)
          else payload_on_stream reg ty len hdr rest)"

definition recv_on_stream ::
  "registry \<Rightarrow> byte list transport
    \<Rightarrow> (error + command option) \<times> byte list transport" where
  "recv_on_stream reg tr =
     (let need = COMMAND_HEADER_LENGTH - length (read_buffer tr);
          hdr = read_buffer tr @ take need (reader tr);
          rest = drop need (reader tr)
      in if length hdr < COMMAND_HEADER_LENGTH
         then (Inr None, \<lparr>reader = rest, read_buffer = hdr\<rparr>)
         else frame_on_stream reg hdr rest)"

subsection \<open>LanternClient\<close>

text \<open>What a call of the caller's callback does: it returns, or it raises. In \<open>error\<close>,
  \<open>BaseException\<close> stands for the exceptions that are not instances of \<^verbatim>\<open>Exception\<close>
  (\<^verbatim>\<open>KeyboardInterrupt\<close>, \<^verbatim>\<open>SystemExit\<close>), which \<^verbatim>\<open>except Exception\<close> does not catch. The
  callback works on a state \<open>'h\<close> of its own.\<close>

datatype outcome = Returned | Raised error

fun is_Exception :: "error \<Rightarrow> bool" where
  "is_Exception BaseException = False"
| "is_Exception _ = True"

type_synonym 'h callback = "command \<Rightarrow> 'h \<Rightarrow> outcome \<times> 'h"

text \<open>The fields of \<^verbatim>\<open>LanternClient\<close> that its loops read or write. The callback is set
  once by \<^verbatim>\<open>__init__\<close> and is a parameter of the loops. \<^verbatim>\<open>_running\<close> is only cleared by
  the signal handler, from outside the loops.\<close>

record lantern_client =
  running :: bool
  num_connections_to_process :: "int option"

text \<open>\<^verbatim>\<open>asyncio.open_connection\<close> is a step of the network \<open>'n\<close>: it connects, giving a
  reader, or raises \<^verbatim>\<open>ConnectionRefusedError\<close>.\<close>

datatype 'r connection = Connected 'r | ConnectionRefused

partial_function (option) connect ::
  "('n \<Rightarrow> 'r connection \<times> 'n) \<Rightarrow> lantern_client \<Rightarrow> 'n
    \<Rightarrow> ('r transport option \<times> lantern_client \<times> 'n) option" where
  "connect open_connection cl net =
     (if running cl \<and> num_connections_to_process cl \<noteq> Some 0
      then (case open_connection net of
              (Connected r, net') \<Rightarrow>
                Some (Some (new_transport r),
                      cl\<lparr>num_connections_to_process :=
                            map_option (\<lambda>k. k - 1) (num_connections_to_process cl)\<rparr>,
                      net')
            | (ConnectionRefused, net') \<Rightarrow> connect open_connection cl net')
      else Some (None, cl, net))"

text \<open>The inner \<^verbatim>\<open>while\<close> of \<^verbatim>\<open>LanternClient.loop\<close>: receive while the client runs and
  the transport is not at end-of-stream. An exception of \<^verbatim>\<open>recv\<close> is not caught; an
  exception of the callback is caught when it is an \<^verbatim>\<open>Exception\<close>.\<close>

partial_function (option) receive_loop ::
  "'r reader_ops \<Rightarrow> registry \<Rightarrow> 'h callback option \<Rightarrow> lantern_client \<Rightarrow> 'r transport \<Rightarrow> 'h
    \<Rightarrow> ((error + unit) \<times> 'r transport \<times> 'h) option" where
  "receive_loop ops reg cb cl tr h =
     (if running cl \<and> \<not> at_eof ops (reader tr)
      then Option.bind (recv ops reg tr)
             (\<lambda>(res, tr').
                 case res of
                   Inl e \<Rightarrow> Some (Inl e, tr', h)
                 | Inr None \<Rightarrow> receive_loop ops reg cb cl tr' h
                 | Inr (Some command) \<Rightarrow>
                     (case cb of
                        None \<Rightarrow> receive_loop ops reg cb cl tr' h
                      | Some on_command_callback \<Rightarrow>
                          (case on_command_callback command h of
                             (Returned, h') \<Rightarrow> receive_loop ops reg cb cl tr' h'
                           | (Raised e, h') \<Rightarrow>
                               if is_Exception e then receive_loop ops reg cb cl tr' h'
                               else Some (Inl e, tr', h'))))
      else Some (Inr (), tr, h))"

text \<open>\<^verbatim>\<open>LanternClient.loop\<close>: connect, receive until the connection ends, again.\<close>

partial_function (option) loop ::
  "('n \<Rightarrow> 'r connection \<times> 'n) \<Rightarrow> 'r reader_ops \<Rightarrow> registry \<Rightarrow> 'h callback option
    \<Rightarrow> lantern_client \<Rightarrow> 'n \<Rightarrow> 'h \<Rightarrow> ((error + unit) \<times> lantern_client \<times> 'n \<times> 'h) option" where
  "loop open_connection ops reg cb cl net h =
     (if running cl
      then Option.bind (connect open_connection cl net)
             (\<lambda>(transport, cl', net').
                 case transport of
                   None \<Rightarrow> Some (Inr (), cl', net', h)
                 | Some tr \<Rightarrow>
                     Option.bind (receive_loop ops reg cb cl' tr h)
                       (\<lambda>(res, tr', h').
                           case res of
                             Inl e \<Rightarrow> Some (Inl e, cl', net', h')
                           | Inr _ \<Rightarrow> loop open_connection ops reg cb cl' net' h'))
      else Some (Inr (), cl, net, h))"

text \<open>A callback with the same effect on its state that always returns, and the
  callbacks of which every exception is an \<^verbatim>\<open>Exception\<close>.\<close>

definition returning :: "'h callback \<Rightarrow> 'h callback" where
  "returning f = (\<lambda>command h. (Returned, snd (f command h)))"

definition raises_only_Exception :: "'h callback \<Rightarrow> bool" where
  "raises_only_Exception f \<longleftrightarrow> (\<forall>command h e. fst (f command h) = Raised e \<longrightarrow> is_Exception e)"

text \<open>Two fixtures in the manner of \<^verbatim>\<open>test_client_server\<close>: a callback that appends the
  command to the list of received commands, as \<^verbatim>\<open>received_commands.append\<close> does, and
  then raises \<^verbatim>\<open>ValueError\<close>; and a server that accepts every connection and sends
  the same bytes before it closes.\<close>

definition failing_callback :: "command list callback" where
  "failing_callback command received = (Raised ValueError, received @ [command])"

definition serving :: "byte list \<Rightarrow> unit \<Rightarrow> byte list connection \<times> unit" where
  "serving data net = (Connected data, net)"

section \<open>The codec\<close>

lemma unat_byte_of_nat: "n \<le> 255 \<Longrightarrow> unat (of_nat n :: byte) = n"
  by (simp add: unat_of_nat)

lemma unpack_pack_length:
  "n \<le> 65535 \<Longrightarrow>
     unat (of_nat (n div 256) :: byte) * 256 + unat (of_nat (n mod 256) :: byte) = n"
  by (simp add: unat_of_nat)

lemma initial_registry_eq:
  "initial_registry =
     [0x00 \<mapsto> BaseCommand, 0x99 \<mapsto> CommandUnknown, 0x12 \<mapsto> CommandOn,
      0x13 \<mapsto> CommandOff, 0x20 \<mapsto> CommandColor]"
  by (simp add: initial_registry_def register_def BaseCommand_def CommandUnknown_def
      CommandOn_def CommandOff_def CommandColor_def)

lemma encode_wellformed:
  assumes "cmd_type c \<le> 255" and "cmd_length c \<le> 65535"
    and "cmd_length c = (case cmd_value c of None \<Rightarrow> 0 | Some bs \<Rightarrow> length bs)"
  shows "encode c =
           Inr ([of_nat (cmd_type c), of_nat (cmd_length c div 256),
                 of_nat (cmd_length c mod 256)]
                @ (case cmd_value c of None \<Rightarrow> [] | Some bs \<Rightarrow> bs))"
  using assms by (auto simp: encode_def pack_BH_def pack_s_def split: option.splits)

lemma encode_On: "encode (init CommandOn None) = Inr [0x12, 0x00, 0x00]"
  by (simp add: encode_def init_def CommandOn_def pack_BH_def cmd_type_def)

lemma encode_Off: "encode (init CommandOff None) = Inr [0x13, 0x00, 0x00]"
  by (simp add: encode_def init_def CommandOff_def pack_BH_def cmd_type_def)

lemma from_rgb_bytes:
  "from_rgb 1 2 3 = Inr (init CommandColor (Some [0x01, 0x02, 0x03]))"
  "from_rgb 10 20 30 = Inr (init CommandColor (Some [10, 20, 30]))"
  "from_rgb 40 50 60 = Inr (init CommandColor (Some [40, 50, 60]))"
  by (simp_all add: from_rgb_def pack_BBB_def)

lemma encode_Color:
  "encode (init CommandColor (Some [r, g, b])) = Inr [0x20, 0x00, 0x03, r, g, b]"
  by (simp add: encode_def init_def CommandColor_def pack_BH_def pack_s_def cmd_type_def)

text \<open>
  \<^bold>\<open>C5\<close>. For every command whose \<^verbatim>\<open>length\<close> is the length of its \<^verbatim>\<open>value\<close> (0 when the
  value is absent), with a type that fits one byte and a length that fits 16 bits,
  \<^verbatim>\<open>encode\<close> succeeds with exactly \<open>3 + length\<close> bytes: the type byte, the length as two
  big-endian bytes, then the payload bytes (none when the length is 0). In particular
  \<^verbatim>\<open>On\<close> encodes to \<^verbatim>\<open>12 00 00\<close>, \<^verbatim>\<open>Off\<close> to \<^verbatim>\<open>13 00 00\<close> and \<^verbatim>\<open>Color(1,2,3)\<close> to
  \<^verbatim>\<open>20 00 03 01 02 03\<close>.
\<close>

theorem encode_layout:
  assumes "cmd_type c \<le> 255" and "cmd_length c \<le> 65535"
    and "cmd_length c = (case cmd_value c of None \<Rightarrow> 0 | Some bs \<Rightarrow> length bs)"
  shows "\<exists>t hi lo payload.
           encode c = Inr (t # hi # lo # payload) \<and>
           length (t # hi # lo # payload) = 3 + cmd_length c \<and>
           unat t = cmd_type c \<and>
           unat hi * 256 + unat lo = cmd_length c \<and>
           payload = (case cmd_value c of None \<Rightarrow> [] | Some bs \<Rightarrow> bs) \<and>
           (cmd_length c = 0 \<longleftrightarrow> payload = []) \<and>
           encode (init CommandOn None) = Inr [0x12, 0x00, 0x00] \<and>
           encode (init CommandOff None) = Inr [0x13, 0x00, 0x00] \<and>
           from_rgb 1 2 3 = Inr (init CommandColor (Some [0x01, 0x02, 0x03])) \<and>
           encode (init CommandColor (Some [0x01, 0x02, 0x03]))
             = Inr [0x20, 0x00, 0x03, 0x01, 0x02, 0x03]"
proof -
  have len: "length (case cmd_value c of None \<Rightarrow> [] | Some bs \<Rightarrow> bs) = cmd_length c"
    using assms(3) by (simp split: option.splits)
  have empty: "cmd_length c = 0 \<longleftrightarrow> (case cmd_value c of None \<Rightarrow> [] | Some bs \<Rightarrow> bs) = []"
    using assms(3) by (simp split: option.splits)
  show ?thesis
    using encode_wellformed [OF assms] len empty
      unat_byte_of_nat [OF assms(1)] unpack_pack_length [OF assms(2)]
    by (simp add: encode_On encode_Off encode_Color from_rgb_bytes)
qed

theorem encode_layout_witness:
  "\<exists>t hi lo payload.
     encode (init CommandColor (Some [7, 8, 9])) = Inr (t # hi # lo # payload) \<and>
     length (t # hi # lo # payload) = 3 + 3 \<and>
     unat t = 0x20 \<and> unat hi * 256 + unat lo = 3 \<and> payload = [7, 8, 9]"
proof -
  let ?c = "init CommandColor (Some [7, 8, 9])"
  have h1: "cmd_type ?c \<le> 255" by (simp add: cmd_type_def init_def CommandColor_def)
  have h2: "cmd_length ?c \<le> 65535" by (simp add: init_def)
  have h3: "cmd_length ?c = (case cmd_value ?c of None \<Rightarrow> 0 | Some bs \<Rightarrow> length bs)"
    by (simp add: init_def)
  show ?thesis
    using encode_layout [OF h1 h2 h3]
    by (fastforce simp: cmd_type_def init_def CommandColor_def)
qed

text \<open>
  \<^bold>\<open>C7\<close>. For every type that is not in the registry and every payload, absent, empty
  or not, \<^verbatim>\<open>decode\<close> returns \<^verbatim>\<open>None\<close>; the model of \<^verbatim>\<open>decode\<close> has no raising branch,
  and the payload plays no part in the result.
\<close>

theorem decode_unregistered:
  "reg ty = None \<Longrightarrow> decode reg ty v = None"
  by (simp add: decode_def)

theorem decode_unregistered_witness:
  "initial_registry 0x42 = None \<and>
   decode initial_registry 0x42 None = None \<and>
   decode initial_registry 0x42 (Some [0x01, 0x02]) = None"
proof -
  have h: "initial_registry 0x42 = None" by (simp add: initial_registry_eq)
  show ?thesis
    using h decode_unregistered [of initial_registry "0x42" None]
      decode_unregistered [of initial_registry "0x42" "Some [0x01, 0x02]"]
    by simp
qed

text \<open>
  \<^bold>\<open>C8\<close>. Registering a class whose type is already in the registry fails (the source
  raises \<^verbatim>\<open>ValueError\<close>, the spec's DuplicateRegistration), and the registry after the
  failed call is the registry before it: the type still maps to the class registered
  first.
\<close>

theorem register_duplicate:
  "class_type k \<in> dom reg \<Longrightarrow>
     register k reg = (Inl ValueError, reg) \<and>
     snd (register k reg) (class_type k) = reg (class_type k)"
  by (simp add: register_def)

theorem register_duplicate_witness:
  "register \<lparr>class_name = ''CommandTest'', class_type = 0x12\<rparr> initial_registry
     = (Inl ValueError, initial_registry) \<and>
   snd (register \<lparr>class_name = ''CommandTest'', class_type = 0x12\<rparr> initial_registry) 0x12
     = Some CommandOn"
proof -
  have h: "class_type \<lparr>class_name = ''CommandTest'', class_type = 0x12\<rparr>
             \<in> dom initial_registry"
    by (simp add: initial_registry_eq)
  show ?thesis
    using register_duplicate [OF h] by (simp add: initial_registry_eq)
qed

lemma frame_fields_encode:
  assumes "cmd_type c \<le> 255" and "cmd_length c \<le> 65535"
    and "cmd_length c = (case cmd_value c of None \<Rightarrow> 0 | Some bs \<Rightarrow> length bs)"
    and "cmd_value c \<noteq> Some []"
    and "encode c = Inr frame"
  shows "frame_fields frame = Inr (cmd_type c, cmd_value c)"
proof -
  have fr: "frame = [of_nat (cmd_type c), of_nat (cmd_length c div 256),
                 of_nat (cmd_length c mod 256)]
                @ (case cmd_value c of None \<Rightarrow> [] | Some bs \<Rightarrow> bs)"
    using encode_wellformed [OF assms(1-3)] assms(5) by simp
  show ?thesis
  proof (cases "cmd_value c")
    case None
    then show ?thesis using assms(1-3) fr unat_byte_of_nat [OF assms(1)]
      by (simp add: frame_fields_def COMMAND_HEADER_LENGTH_def unpack_BH_def)
  next
    case (Some bs)
    then have "bs \<noteq> []" using assms(4) by simp
    then show ?thesis
      using Some assms(1-3) fr unat_byte_of_nat [OF assms(1)] unpack_pack_length [OF assms(2)]
      by (simp add: frame_fields_def COMMAND_HEADER_LENGTH_def unpack_BH_def unpack_from_s_def)
  qed
qed

text \<open>
  \<^bold>\<open>C4\<close>. Round trip. Let \<open>c\<close> be a command of a registered class (the registry maps
  its type to its class) as the constructor builds it, with an absent or a non-empty
  payload of at most 65535 bytes: this covers \<^verbatim>\<open>On\<close>, \<^verbatim>\<open>Off\<close>, \<^verbatim>\<open>Unknown\<close> and every
  \<^verbatim>\<open>Color\<close>. Then \<^verbatim>\<open>encode\<close> succeeds, and decoding the type and the payload of the
  frame gives back \<open>c\<close>, hence a command that \<^verbatim>\<open>==\<close> holds equal to \<open>c\<close>.
\<close>

theorem decode_encode_roundtrip:
  assumes "reg (cmd_type c) = Some (cls c)"
    and "cmd_type c \<le> 255" and "cmd_length c \<le> 65535"
    and "cmd_length c = (case cmd_value c of None \<Rightarrow> 0 | Some bs \<Rightarrow> length bs)"
    and "cmd_value c \<noteq> Some []"
  shows "\<exists>frame ty payload c'.
           encode c = Inr frame \<and> frame_fields frame = Inr (ty, payload) \<and>
           decode reg ty payload = Some c' \<and> command_eq c' c \<and> c' = c"
proof -
  obtain frame where enc: "encode c = Inr frame"
    using encode_wellformed [OF assms(2-4)] by simp
  have ff: "frame_fields frame = Inr (cmd_type c, cmd_value c)"
    using frame_fields_encode [OF assms(2-5) enc] .
  have "decode reg (cmd_type c) (cmd_value c) = Some c"
    using assms(1,4) by (simp add: decode_def init_def)
  then show ?thesis using enc ff by (simp add: command_eq_def)
qed

theorem decode_encode_roundtrip_witness:
  "(\<exists>frame ty payload c'.
      encode (init CommandColor (Some [1, 2, 3])) = Inr frame \<and>
      frame_fields frame = Inr (ty, payload) \<and>
      decode initial_registry ty payload = Some c' \<and>
      command_eq c' (init CommandColor (Some [1, 2, 3]))) \<and>
   (\<exists>frame ty payload c'.
      encode (init CommandOn None) = Inr frame \<and>
      frame_fields frame = Inr (ty, payload) \<and>
      decode initial_registry ty payload = Some c' \<and>
      command_eq c' (init CommandOn None))"
proof -
  let ?c = "init CommandColor (Some [1, 2, 3])"
  let ?d = "init CommandOn None"
  have c: "initial_registry (cmd_type ?c) = Some (cls ?c)" "cmd_type ?c \<le> 255"
    "cmd_length ?c \<le> 65535"
    "cmd_length ?c = (case cmd_value ?c of None \<Rightarrow> 0 | Some bs \<Rightarrow> length bs)"
    "cmd_value ?c \<noteq> Some []"
    by (simp_all add: initial_registry_eq cmd_type_def init_def CommandColor_def)
  have d: "initial_registry (cmd_type ?d) = Some (cls ?d)" "cmd_type ?d \<le> 255"
    "cmd_length ?d \<le> 65535"
    "cmd_length ?d = (case cmd_value ?d of None \<Rightarrow> 0 | Some bs \<Rightarrow> length bs)"
    "cmd_value ?d \<noteq> Some []"
    by (simp_all add: initial_registry_eq cmd_type_def init_def CommandOn_def)
  show ?thesis
    using decode_encode_roundtrip [of initial_registry ?c, OF c]
      decode_encode_roundtrip [of initial_registry ?d, OF d]
    by blast
qed

text \<open>
  \<^bold>\<open>C6\<close>, as stated, does not hold: no constructor checks the shape of its payload.
  Decoding type \<^verbatim>\<open>0x20\<close> with a one-byte payload returns a \<^verbatim>\<open>CommandColor\<close> carrying
  that byte; nothing is raised.
\<close>

theorem decode_color_wrong_shape:
  "decode initial_registry 0x20 (Some [0x01]) = Some (init CommandColor (Some [0x01]))"
  by (simp add: decode_def initial_registry_eq)

text \<open>
  \<^bold>\<open>C6\<close>, amended. For every payload, of any shape or absent, decoding type \<^verbatim>\<open>0x20\<close>
  returns the \<^verbatim>\<open>CommandColor\<close> built on that payload and does not fail. The shape is
  checked only when \<^verbatim>\<open>rgb\<close> is read: that raises exactly when the payload is absent or
  is not 3 bytes long.
\<close>

theorem decode_color_unchecked:
  "decode initial_registry 0x20 v = Some (init CommandColor v) \<and>
   isl (rgb (init CommandColor v)) = (case v of None \<Rightarrow> True | Some bs \<Rightarrow> length bs \<noteq> 3)"
proof -
  have "isl (unpack_BBB v) = (case v of None \<Rightarrow> True | Some bs \<Rightarrow> length bs \<noteq> 3)"
    by (auto simp: unpack_BBB_def split: option.splits list.splits)
  then show ?thesis
    by (simp add: decode_def initial_registry_eq rgb_def init_def)
qed

section \<open>The transport on finite streams\<close>

lemma stream_reader_DefaultReader: "stream_reader DefaultReader"
  unfolding stream_reader_def DefaultReader_def
  by (auto intro!: exI)

lemma stream_reader_OneByteAtATimeReader: "stream_reader OneByteAtATimeReader"
  unfolding stream_reader_def OneByteAtATimeReader_def DefaultReader_def
  by (auto intro!: exI [of _ 1])

lemma stream_readerD:
  assumes "stream_reader ops" and "0 < n"
  obtains k where "read ops n d = (take k d, drop k d)" and "k \<le> n" and "d \<noteq> [] \<Longrightarrow> 0 < k"
  using assms unfolding stream_reader_def by blast

lemma stream_reader_eof: "stream_reader ops \<Longrightarrow> at_eof ops d = (d = [])"
  by (simp add: stream_reader_def)

lemma retry_read_loop_stream:
  assumes sr: "stream_reader ops"
  shows "retry_read_loop ops n acc d
           = Some (acc @ take (n - length acc) d, drop (n - length acc) d)"
proof (induction "n - length acc" arbitrary: acc d rule: less_induct)
  case less
  show ?case
  proof (cases "length acc < n")
    case False
    then show ?thesis by (subst retry_read_loop.simps) simp
  next
    case True
    define m where "m = n - length acc"
    have m: "0 < m" using True by (simp add: m_def)
    obtain k where k: "read ops m d = (take k d, drop k d)" "k \<le> m" "d \<noteq> [] \<Longrightarrow> 0 < k"
      using stream_readerD [OF sr m] by blast
    show ?thesis
    proof (cases "drop k d = []")
      case True
      then have "take k d = take m d" "drop m d = []" using k(2) by simp_all
      then show ?thesis
        using \<open>length acc < n\<close> k(1) True
        by (subst retry_read_loop.simps) (simp add: m_def [symmetric] stream_reader_eof [OF sr])
    next
      case False
      then have kd: "k < length d" by simp
      then have "d \<noteq> []" by auto
      then have kpos: "0 < k" by (rule k(3))
      have less': "n - length (acc @ take k d) < n - length acc"
        using kd kpos True by simp
      have "retry_read_loop ops n acc d = retry_read_loop ops n (acc @ take k d) (drop k d)"
        using \<open>length acc < n\<close> k(1) False
        by (subst retry_read_loop.simps) (simp add: m_def [symmetric] stream_reader_eof [OF sr])
      also have "\<dots> = Some ((acc @ take k d) @ take (n - length (acc @ take k d)) (drop k d),
                          drop (n - length (acc @ take k d)) (drop k d))"
        by (rule less [OF less'])
      also have "n - length (acc @ take k d) = m - k"
        using kd by (simp add: m_def min_def)
      also have "(acc @ take k d) @ take (m - k) (drop k d) = acc @ take m d"
        using k(2) by (metis append.assoc le_add_diff_inverse take_add)
      also have "drop (m - k) (drop k d) = drop m d"
        using k(2) by simp
      finally show ?thesis by (simp add: m_def)
    qed
  qed
qed

lemma retry_read_stream:
  "stream_reader ops \<Longrightarrow> retry_read ops n d = Some (take n d, drop n d)"
  by (simp add: retry_read_def retry_read_loop_stream)


lemma process_payload_enough:
  assumes "length buf = 3" and "len \<le> length got" 
  shows "process_payload ops reg ty len \<lparr>reader = d, read_buffer = buf @ take len got\<rparr>
           = Some (Inr (decode reg ty (Some (take len got))), \<lparr>reader = d, read_buffer = []\<rparr>)"
  using assms
  by (subst process_payload.simps)
     (simp add: bytes_missing_def COMMAND_HEADER_LENGTH_def unpack_from_s_def consume_def
        min_def)

lemma process_payload_stream:
  assumes sr: "stream_reader ops" and buf: "length buf = 3" and len: "0 < len"
  shows "process_payload ops reg ty len \<lparr>reader = d, read_buffer = buf\<rparr>
           = Some (payload_on_stream reg ty len buf d)"
proof (cases "d = []")
  case True
  then show ?thesis using buf len
    by (subst process_payload.simps)
       (simp add: bytes_missing_def COMMAND_HEADER_LENGTH_def stream_reader_eof [OF sr]
          payload_on_stream_def)
next
  case False
  have step: "process_payload ops reg ty len \<lparr>reader = d, read_buffer = buf\<rparr>
      = process_payload ops reg ty len \<lparr>reader = drop len d, read_buffer = buf @ take len d\<rparr>"
    using False buf len
    by (subst process_payload.simps)
       (simp add: bytes_missing_def COMMAND_HEADER_LENGTH_def stream_reader_eof [OF sr]
          retry_read_stream [OF sr])
  show ?thesis
  proof (cases "length d < len")
    case True
    then show ?thesis unfolding step using buf
      by (subst process_payload.simps)
         (simp add: bytes_missing_def COMMAND_HEADER_LENGTH_def stream_reader_eof [OF sr]
            payload_on_stream_def)
  next
    case False
    then have "len \<le> length d" by simp
    then show ?thesis unfolding step
      using process_payload_enough [OF buf, of len d ops reg ty "drop len d"]
      by (simp add: payload_on_stream_def)
  qed
qed

lemma process_buffer_stream:
  assumes sr: "stream_reader ops" and buf: "length buf = 3"
  shows "process_buffer ops reg \<lparr>reader = d, read_buffer = buf\<rparr>
           = Some (frame_on_stream reg buf d)"
proof -
  obtain t hi lo where b: "buf = [t, hi, lo]"
    using buf by (auto simp: length_Suc_conv eval_nat_numeral)
  show ?thesis
  proof (cases "unat hi * 256 + unat lo = 0")
    case True
    then show ?thesis
      by (simp add: process_buffer_def frame_on_stream_def unpack_BH_def b consume_def
          COMMAND_HEADER_LENGTH_def)
  next
    case False
    then have "0 < unat hi * 256 + unat lo" by simp
    from process_payload_stream [OF sr buf this, of reg "unat t" d] False
    show ?thesis
      by (auto simp: process_buffer_def frame_on_stream_def unpack_BH_def b)
  qed
qed

lemma recv_stream:
  assumes sr: "stream_reader ops" and buf: "length (read_buffer tr) \<le> 3"
  shows "recv ops reg tr = Some (recv_on_stream reg tr)"
proof -
  obtain d b where tr: "tr = \<lparr>reader = d, read_buffer = b\<rparr>"
    by (cases tr) simp
  have b: "length b \<le> 3" using buf tr by simp
  show ?thesis
  proof (cases "length b = 3")
    case True
    then show ?thesis unfolding tr
      by (subst recv.simps)
         (simp add: bytes_missing_def COMMAND_HEADER_LENGTH_def process_buffer_stream [OF sr]
            recv_on_stream_def)
  next
    case False
    then have short: "length b < 3" using b by simp
    show ?thesis
    proof (cases "d = []")
      case True
      then show ?thesis unfolding tr using short
        by (subst recv.simps)
           (simp add: bytes_missing_def COMMAND_HEADER_LENGTH_def stream_reader_eof [OF sr]
              recv_on_stream_def)
    next
      case False
      define need where "need = 3 - length b"
      have step: "recv ops reg \<lparr>reader = d, read_buffer = b\<rparr>
          = recv ops reg \<lparr>reader = drop need d, read_buffer = b @ take need d\<rparr>"
        using False short
        by (subst recv.simps)
           (simp add: bytes_missing_def COMMAND_HEADER_LENGTH_def stream_reader_eof [OF sr]
              retry_read_stream [OF sr] need_def nat_diff_distrib)
      show ?thesis
      proof (cases "length d < need")
        case True
        then have "int (length b) + int (length d) < 3" by (simp add: need_def)
        with True show ?thesis unfolding tr step using short
          by (subst recv.simps)
             (simp add: bytes_missing_def COMMAND_HEADER_LENGTH_def stream_reader_eof [OF sr]
                recv_on_stream_def need_def)
      next
        case False
        then have l3: "length (b @ take need d) = 3" using short by (simp add: need_def)
        show ?thesis unfolding tr step using l3 False short
          by (subst recv.simps)
             (simp add: bytes_missing_def COMMAND_HEADER_LENGTH_def
                process_buffer_stream [OF sr l3, unfolded need_def] recv_on_stream_def
                need_def Let_def)
      qed
    qed
  qed
qed

lemma encode_frame_shape:
  assumes "encode c = Inr frame"
  shows "\<exists>t hi lo p. frame = t # hi # lo # p \<and> length p = unat hi * 256 + unat lo"
proof -
  have r: "cmd_type c \<le> 255" "cmd_length c \<le> 65535"
    using assms by (auto simp: encode_def pack_BH_def split: if_splits)
  show ?thesis
  proof (cases "cmd_length c > 0")
    case True
    then obtain bs where v: "cmd_value c = Some bs"
      using assms r by (cases "cmd_value c") (auto simp: encode_def pack_BH_def pack_s_def)
    have "frame = [of_nat (cmd_type c), of_nat (cmd_length c div 256),
                   of_nat (cmd_length c mod 256)]
                  @ (take (cmd_length c) bs @ replicate (cmd_length c - length bs) 0)"
      using assms r True v by (simp add: encode_def pack_BH_def pack_s_def)
    then show ?thesis using unpack_pack_length [OF r(2)] by (simp add: min_def)
  next
    case False
    then show ?thesis using assms r by (auto simp: encode_def pack_BH_def)
  qed
qed

lemma recv_on_stream_frame:
  assumes "length p = unat hi * 256 + unat lo"
  shows "recv_on_stream reg (new_transport (t # hi # lo # p @ sfx))
           = (Inr (decode reg (unat t) (if p = [] then None else Some p)), new_transport sfx)"
proof -
  have "p = [] \<longleftrightarrow> unat hi * 256 + unat lo = 0"
    using assms by (metis length_0_conv)
  then show ?thesis using assms
    by (simp add: recv_on_stream_def new_transport_def COMMAND_HEADER_LENGTH_def Let_def
        frame_on_stream_def unpack_BH_def payload_on_stream_def)
qed

lemma frame_fields_frame:
  assumes "length p = unat hi * 256 + unat lo"
  shows "frame_fields (t # hi # lo # p) = Inr (unat t, if p = [] then None else Some p)"
proof -
  have "p = [] \<longleftrightarrow> unat hi * 256 + unat lo = 0"
    using assms by (metis length_0_conv)
  then show ?thesis using assms
    by (simp add: frame_fields_def COMMAND_HEADER_LENGTH_def unpack_BH_def unpack_from_s_def)
qed

lemma recv_OneByte_frame:
  assumes "length p = unat hi * 256 + unat lo"
  shows "recv OneByteAtATimeReader reg (new_transport (t # hi # lo # p @ sfx))
           = Some (Inr (decode reg (unat t) (if p = [] then None else Some p)),
                   new_transport sfx)"
proof -
  have b: "length (read_buffer (new_transport (t # hi # lo # p @ sfx))) \<le> 3"
    by (simp add: new_transport_def)
  show ?thesis
    using recv_stream [OF stream_reader_OneByteAtATimeReader b, of reg]
      recv_on_stream_frame [OF assms, of reg t sfx]
    by simp
qed

lemma recv_OneByte_empty:
  "recv OneByteAtATimeReader reg (new_transport []) = Some (Inr None, new_transport [])"
proof -
  have b: "length (read_buffer (new_transport ([] :: byte list))) \<le> 3"
    by (simp add: new_transport_def)
  show ?thesis
    using recv_stream [OF stream_reader_OneByteAtATimeReader b, of reg]
    by (simp add: recv_on_stream_def new_transport_def COMMAND_HEADER_LENGTH_def)
qed

text \<open>
  \<^bold>\<open>C1\<close>. Partial-delivery equivalence. For every command \<open>c\<close> that \<^verbatim>\<open>encode\<close> accepts,
  \<^verbatim>\<open>recv\<close> on a fresh transport returns the same result and leaves the same transport
  whether the frame \<^verbatim>\<open>encode(c)\<close> comes from \<^verbatim>\<open>OneByteAtATimeReader\<close> (every read call
  returns exactly one byte) or from \<^verbatim>\<open>DefaultReader\<close> (the first read call returns all
  that was asked for). Both calls return: the result is the decoding of the type and
  payload of the frame, and the whole frame is consumed.
\<close>

theorem recv_partial_delivery:
  assumes "encode c = Inr frame"
  shows "recv OneByteAtATimeReader reg (new_transport frame)
           = recv DefaultReader reg (new_transport frame) \<and>
         (\<exists>ty payload.
            frame_fields frame = Inr (ty, payload) \<and>
            recv DefaultReader reg (new_transport frame)
              = Some (Inr (decode reg ty payload), new_transport []))"
proof -
  obtain t hi lo p where fr: "frame = t # hi # lo # p" and len: "length p = unat hi * 256 + unat lo"
    using encode_frame_shape [OF assms] by blast
  have b: "length (read_buffer (new_transport frame)) \<le> 3" by (simp add: new_transport_def)
  have one: "recv OneByteAtATimeReader reg (new_transport frame)
               = Some (recv_on_stream reg (new_transport frame))"
    by (rule recv_stream [OF stream_reader_OneByteAtATimeReader b])
  have whole: "recv DefaultReader reg (new_transport frame)
               = Some (recv_on_stream reg (new_transport frame))"
    by (rule recv_stream [OF stream_reader_DefaultReader b])
  have res: "recv_on_stream reg (new_transport frame)
           = (Inr (decode reg (unat t) (if p = [] then None else Some p)), new_transport [])"
    using recv_on_stream_frame [OF len, of reg t "[]"] by (simp add: fr)
  show ?thesis
    using one whole res frame_fields_frame [OF len, of t] by (simp add: fr)
qed

theorem recv_partial_delivery_witness:
  "recv OneByteAtATimeReader initial_registry (new_transport [0x20, 0x00, 0x03, 0x01, 0x02, 0x03])
     = recv DefaultReader initial_registry (new_transport [0x20, 0x00, 0x03, 0x01, 0x02, 0x03]) \<and>
   recv DefaultReader initial_registry (new_transport [0x20, 0x00, 0x03, 0x01, 0x02, 0x03])
     = Some (Inr (Some (init CommandColor (Some [0x01, 0x02, 0x03]))), new_transport [])"
proof -
  have h: "encode (init CommandColor (Some [0x01, 0x02, 0x03]))
             = Inr [0x20, 0x00, 0x03, 0x01, 0x02, 0x03]"
    by (rule encode_Color)
  show ?thesis
    using recv_partial_delivery [OF h, of initial_registry]
    by (auto simp: frame_fields_def COMMAND_HEADER_LENGTH_def unpack_BH_def unpack_from_s_def
        decode_def initial_registry_eq)
qed

text \<open>
  \<^bold>\<open>C2\<close>. Truncation. When the stream ends after fewer than 3 bytes, or after a
  complete header that announces \<open>len\<close> payload bytes and fewer than \<open>len\<close> bytes of
  payload, \<^verbatim>\<open>recv\<close> on a fresh transport returns \<^verbatim>\<open>None\<close> without raising and the reader
  is at end-of-stream afterwards, with either reader of the tests.
\<close>

theorem recv_truncated:
  assumes "length data < 3 \<or>
           (\<exists>ty len. unpack_BH (take 3 data) = Inr (ty, len) \<and> length data < 3 + len)"
  shows "(\<exists>tr'. recv DefaultReader reg (new_transport data) = Some (Inr None, tr') \<and>
                at_eof DefaultReader (reader tr')) \<and>
         (\<exists>tr'. recv OneByteAtATimeReader reg (new_transport data) = Some (Inr None, tr') \<and>
                at_eof OneByteAtATimeReader (reader tr'))"
proof -
  have b: "length (read_buffer (new_transport data)) \<le> 3" by (simp add: new_transport_def)
  have res: "recv_on_stream reg (new_transport data)
               = (Inr None, \<lparr>reader = [], read_buffer = data\<rparr>)"
    using assms
  proof
    assume "length data < 3"
    then show ?thesis
      by (simp add: recv_on_stream_def new_transport_def COMMAND_HEADER_LENGTH_def)
  next
    assume "\<exists>ty len. unpack_BH (take 3 data) = Inr (ty, len) \<and> length data < 3 + len"
    then obtain ty len where u: "unpack_BH (take 3 data) = Inr (ty, len)"
      and short: "length data < 3 + len" by blast
    obtain a b c where "take 3 data = [a, b, c]"
      using u by (auto simp: unpack_BH_def split: list.splits)
    then have "length (take 3 data) = length [a, b, c]" by (rule arg_cong)
    then have l3: "3 \<le> length data" by simp
    then have "take 3 data @ drop 3 data = data" by simp
    then show ?thesis using u short l3
      by (auto simp: recv_on_stream_def new_transport_def COMMAND_HEADER_LENGTH_def Let_def
          frame_on_stream_def payload_on_stream_def)
  qed
  show ?thesis
    using recv_stream [OF stream_reader_DefaultReader b, of reg]
      recv_stream [OF stream_reader_OneByteAtATimeReader b, of reg] res
    by (simp add: stream_reader_eof [OF stream_reader_DefaultReader]
        stream_reader_eof [OF stream_reader_OneByteAtATimeReader])
qed


theorem recv_truncated_witness:
  "(\<exists>tr'. recv DefaultReader initial_registry (new_transport [0x20]) = Some (Inr None, tr') \<and>
          at_eof DefaultReader (reader tr')) \<and>
   (\<exists>tr'. recv OneByteAtATimeReader initial_registry
            (new_transport [0x20, 0x00, 0x03, 0x01, 0x02]) = Some (Inr None, tr') \<and>
          at_eof OneByteAtATimeReader (reader tr'))"
proof -
  have h1: "length [0x20 :: byte] < 3 \<or>
            (\<exists>ty len. unpack_BH (take 3 [0x20]) = Inr (ty, len) \<and> length [0x20 :: byte] < 3 + len)"
    by simp
  have h2: "length [0x20, 0x00, 0x03, 0x01, 0x02 :: byte] < 3 \<or>
            (\<exists>ty len. unpack_BH (take 3 [0x20, 0x00, 0x03, 0x01, 0x02]) = Inr (ty, len) \<and>
               length [0x20, 0x00, 0x03, 0x01, 0x02 :: byte] < 3 + len)"
    by (simp add: unpack_BH_def)
  show ?thesis
    using recv_truncated [OF h1, of initial_registry] recv_truncated [OF h2, of initial_registry]
    by blast
qed

lemma recv_OneByte_four_frames:
  "recv OneByteAtATimeReader initial_registry
     (new_transport [0x20, 0x00, 0x03, 10, 20, 30, 0x12, 0x00, 0x00, 0x13, 0x00, 0x00,
                     0x20, 0x00, 0x03, 40, 50, 60])
   = Some (Inr (Some (init CommandColor (Some [10, 20, 30]))),
           new_transport [0x12, 0x00, 0x00, 0x13, 0x00, 0x00, 0x20, 0x00, 0x03, 40, 50, 60])"
  "recv OneByteAtATimeReader initial_registry
     (new_transport [0x12, 0x00, 0x00, 0x13, 0x00, 0x00, 0x20, 0x00, 0x03, 40, 50, 60])
   = Some (Inr (Some (init CommandOn None)),
           new_transport [0x13, 0x00, 0x00, 0x20, 0x00, 0x03, 40, 50, 60])"
  "recv OneByteAtATimeReader initial_registry
     (new_transport [0x13, 0x00, 0x00, 0x20, 0x00, 0x03, 40, 50, 60])
   = Some (Inr (Some (init CommandOff None)), new_transport [0x20, 0x00, 0x03, 40, 50, 60])"
  "recv OneByteAtATimeReader initial_registry (new_transport [0x20, 0x00, 0x03, 40, 50, 60])
   = Some (Inr (Some (init CommandColor (Some [40, 50, 60]))), new_transport [])"
  using recv_OneByte_frame [of "[10, 20, 30]" "0x00" "0x03" initial_registry "0x20"
      "[0x12, 0x00, 0x00, 0x13, 0x00, 0x00, 0x20, 0x00, 0x03, 40, 50, 60]"]
    recv_OneByte_frame [of "[]" "0x00" "0x00" initial_registry "0x12"
      "[0x13, 0x00, 0x00, 0x20, 0x00, 0x03, 40, 50, 60]"]
    recv_OneByte_frame [of "[]" "0x00" "0x00" initial_registry "0x13"
      "[0x20, 0x00, 0x03, 40, 50, 60]"]
    recv_OneByte_frame [of "[40, 50, 60]" "0x00" "0x03" initial_registry "0x20" "[]"]
  by (simp_all add: decode_def initial_registry_eq)

text \<open>
  \<^bold>\<open>C3\<close>. Sequencing. The encodings of \<^verbatim>\<open>Color(10,20,30)\<close>, \<^verbatim>\<open>On\<close>, \<^verbatim>\<open>Off\<close>,
  \<^verbatim>\<open>Color(40,50,60)\<close> back to back, read one byte per read call: five successive calls
  of \<^verbatim>\<open>recv\<close> return these four commands in this order and then \<^verbatim>\<open>None\<close>.
\<close>

theorem recv_sequence:
  "from_rgb 10 20 30 = Inr (init CommandColor (Some [10, 20, 30])) \<and>
   from_rgb 40 50 60 = Inr (init CommandColor (Some [40, 50, 60])) \<and>
   encode_all [init CommandColor (Some [10, 20, 30]), init CommandOn None,
               init CommandOff None, init CommandColor (Some [40, 50, 60])]
     = Inr [0x20, 0x00, 0x03, 10, 20, 30, 0x12, 0x00, 0x00, 0x13, 0x00, 0x00,
            0x20, 0x00, 0x03, 40, 50, 60] \<and>
   recv_times OneByteAtATimeReader initial_registry 5
       (new_transport [0x20, 0x00, 0x03, 10, 20, 30, 0x12, 0x00, 0x00, 0x13, 0x00, 0x00,
                       0x20, 0x00, 0x03, 40, 50, 60])
     = Some (Inr [Some (init CommandColor (Some [10, 20, 30])), Some (init CommandOn None),
                  Some (init CommandOff None), Some (init CommandColor (Some [40, 50, 60])),
                  None],
             new_transport [])"
proof -
  let ?R = "recv OneByteAtATimeReader initial_registry"
  note r = recv_OneByte_four_frames
  have r5: "?R (new_transport []) = Some (Inr None, new_transport [])"
    by (rule recv_OneByte_empty)
  have five: "(5 :: nat) = Suc (Suc (Suc (Suc (Suc 0))))" by simp
  show ?thesis
    unfolding five
    by (simp add: r r5 encode_Color encode_On encode_Off from_rgb_bytes)
qed

section \<open>The transport on arbitrary readers\<close>

lemma bounded_readsD:
  "bounded_reads ops \<Longrightarrow> 0 < n \<Longrightarrow> read ops n r = (chunk, r') \<Longrightarrow> length chunk \<le> n"
  unfolding bounded_reads_def by (metis fst_conv)

lemma retry_read_loop_bounded:
  assumes "retry_read_loop ops n acc r = Some y"
  shows "bounded_reads ops \<longrightarrow> length acc \<le> n \<longrightarrow> length (fst y) \<le> n"
proof (rule retry_read_loop.raw_induct
    [where P = "\<lambda>ops n acc r y. bounded_reads ops \<longrightarrow> length acc \<le> n \<longrightarrow> length (fst y) \<le> n",
      OF _ assms], goal_cases)
  case (1 f ops n acc r y)
  show ?case
  proof (intro impI)
    assume bd: "bounded_reads ops" and le: "length acc \<le> n"
    show "length (fst y) \<le> n"
    proof (cases "length acc < n")
      case False
      then show ?thesis using 1(2) le by auto
    next
      case True
      obtain chunk r' where rd: "read ops (n - length acc) r = (chunk, r')"
        by (cases "read ops (n - length acc) r")
      have c: "length chunk \<le> n - length acc"
        using bounded_readsD [OF bd _ rd] True by simp
      show ?thesis
      proof (cases "at_eof ops r'")
        case True
        then show ?thesis using 1(2) \<open>length acc < n\<close> rd c by auto
      next
        case False
        then have "f ops n (acc @ chunk) r' = Some y"
          using 1(2) \<open>length acc < n\<close> rd by simp
        from 1(1) [OF this] bd c True show ?thesis by simp
      qed
    qed
  qed
qed

lemma retry_read_bounded:
  "bounded_reads ops \<Longrightarrow> retry_read ops n r = Some (bs, r') \<Longrightarrow> length bs \<le> n"
  using retry_read_loop_bounded [of ops n "[]" r "(bs, r')"] by (simp add: retry_read_def)

lemma process_payload_safe:
  assumes "process_payload ops reg ty len tr = Some y"
  shows "bounded_reads ops \<longrightarrow> length (read_buffer tr) \<le> len + 3 \<longrightarrow> recv_ok y"
proof (rule process_payload.raw_induct
    [where P = "\<lambda>ops reg ty len tr y.
        bounded_reads ops \<longrightarrow> length (read_buffer tr) \<le> len + 3 \<longrightarrow> recv_ok y",
      OF _ assms], goal_cases)
  case (1 f ops reg ty len tr y)
  show ?case
  proof (intro impI)
    assume bd: "bounded_reads ops" and le: "length (read_buffer tr) \<le> len + 3"
    show "recv_ok y"
    proof (cases "bytes_missing tr (len + COMMAND_HEADER_LENGTH) > 0")
      case False
      then have "length (read_buffer tr) = len + 3"
        using le by (simp add: bytes_missing_def COMMAND_HEADER_LENGTH_def)
      then show ?thesis using 1(2) False
        by (auto simp: unpack_from_s_def COMMAND_HEADER_LENGTH_def consume_def recv_ok_def)
    next
      case True
      show ?thesis
      proof (cases "at_eof ops (reader tr)")
        case True
        then show ?thesis using 1(2) \<open>bytes_missing tr (len + COMMAND_HEADER_LENGTH) > 0\<close>
          by (auto simp: recv_ok_def)
      next
        case False
        define m where "m = nat (bytes_missing tr (len + COMMAND_HEADER_LENGTH))"
        from 1(2) True False obtain bs r' where
          rr: "retry_read ops m (reader tr) = Some (bs, r')" and
          rec: "f ops reg ty len (tr\<lparr>reader := r', read_buffer := read_buffer tr @ bs\<rparr>) = Some y"
          by (auto simp: m_def bind_eq_Some_conv)
        have "length bs \<le> m" by (rule retry_read_bounded [OF bd rr])
        then have "length (read_buffer tr @ bs) \<le> len + 3"
          using True by (simp add: m_def bytes_missing_def COMMAND_HEADER_LENGTH_def)
        with 1(1) [OF rec] bd show ?thesis by simp
      qed
    qed
  qed
qed

lemma process_buffer_safe:
  assumes "process_buffer ops reg tr = Some y" and "bounded_reads ops"
    and "length (read_buffer tr) = 3"
  shows "recv_ok y"
proof -
  obtain t hi lo where b: "read_buffer tr = [t, hi, lo]"
    using assms(3) by (auto simp: length_Suc_conv eval_nat_numeral)
  show ?thesis
  proof (cases "unat hi * 256 + unat lo = 0")
    case True
    then show ?thesis using assms(1)
      by (auto simp: process_buffer_def unpack_BH_def b consume_def recv_ok_def
          COMMAND_HEADER_LENGTH_def)
  next
    case False
    then have "process_payload ops reg (unat t) (unat hi * 256 + unat lo) tr = Some y"
      using assms(1) by (auto simp: process_buffer_def unpack_BH_def b)
    from process_payload_safe [OF this] assms(2) b show ?thesis by simp
  qed
qed

lemma recv_safe_aux:
  assumes "recv ops reg tr = Some y"
  shows "bounded_reads ops \<longrightarrow> length (read_buffer tr) \<le> 3 \<longrightarrow> recv_ok y"
proof (rule recv.raw_induct
    [where P = "\<lambda>ops reg tr y.
        bounded_reads ops \<longrightarrow> length (read_buffer tr) \<le> 3 \<longrightarrow> recv_ok y",
      OF _ assms], goal_cases)
  case (1 f ops reg tr y)
  show ?case
  proof (intro impI)
    assume bd: "bounded_reads ops" and le: "length (read_buffer tr) \<le> 3"
    show "recv_ok y"
    proof (cases "bytes_missing tr COMMAND_HEADER_LENGTH > 0")
      case False
      then have l3: "length (read_buffer tr) = 3"
        using le by (simp add: bytes_missing_def COMMAND_HEADER_LENGTH_def)
      from 1(2) False have "process_buffer ops reg tr = Some y" by simp
      then show ?thesis using bd l3 by (rule process_buffer_safe)
    next
      case True
      show ?thesis
      proof (cases "at_eof ops (reader tr)")
        case True
        then show ?thesis using 1(2) \<open>bytes_missing tr COMMAND_HEADER_LENGTH > 0\<close>
          by (auto simp: recv_ok_def)
      next
        case False
        define m where "m = nat (bytes_missing tr COMMAND_HEADER_LENGTH)"
        from 1(2) True False obtain bs r' where
          rr: "retry_read ops m (reader tr) = Some (bs, r')" and
          rec: "f ops reg (tr\<lparr>reader := r', read_buffer := read_buffer tr @ bs\<rparr>) = Some y"
          by (auto simp: m_def bind_eq_Some_conv)
        have "length bs \<le> m" by (rule retry_read_bounded [OF bd rr])
        then have "length (read_buffer tr @ bs) \<le> 3"
          using True by (simp add: m_def bytes_missing_def COMMAND_HEADER_LENGTH_def)
        with 1(1) [OF rec] bd show ?thesis by simp
      qed
    qed
  qed
qed


lemma retry_read_loop_returns:
  assumes bd: "bounded_reads ops" and ev: "eventually_delivers ops"
  shows "length acc \<le> n \<Longrightarrow> (length acc < n \<Longrightarrow> \<not> at_eof ops r) \<Longrightarrow>
         \<exists>out r'. retry_read_loop ops n acc r = Some (out, r') \<and>
                  (length out < n \<longrightarrow> at_eof ops r')"
proof (induction "n - length acc" arbitrary: acc r rule: less_induct)
  case less
  show ?case
  proof (cases "length acc < n")
    case False
    then show ?thesis by (subst retry_read_loop.simps) simp
  next
    case True
    define m where "m = n - length acc"
    have pos: "0 < m" using True by (simp add: m_def)
    have wfm: "wf (stutters ops m)"
      using ev pos by (simp add: eventually_delivers_def)
    have "\<not> at_eof ops r \<longrightarrow>
          (\<exists>out r'. retry_read_loop ops n acc r = Some (out, r') \<and>
                    (length out < n \<longrightarrow> at_eof ops r'))" for r
    proof (induction r rule: wf_induct_rule [OF wfm])
      case (1 r)
      show ?case
      proof
        assume ne: "\<not> at_eof ops r"
        obtain chunk r1 where rd: "read ops m r = (chunk, r1)" by (cases "read ops m r")
        have c: "length chunk \<le> m" by (rule bounded_readsD [OF bd pos rd])
        show "\<exists>out r'. retry_read_loop ops n acc r = Some (out, r') \<and>
                    (length out < n \<longrightarrow> at_eof ops r')"
        proof (cases "at_eof ops r1")
          case True
          then show ?thesis using \<open>length acc < n\<close> rd
            by (subst retry_read_loop.simps) (simp add: m_def [symmetric])
        next
          case False
          have "\<exists>out r'. retry_read_loop ops n (acc @ chunk) r1 = Some (out, r') \<and>
                    (length out < n \<longrightarrow> at_eof ops r')"
          proof (cases "chunk = []")
            case True
            then have "(r1, r) \<in> stutters ops m"
              using ne rd False by (simp add: stutters_def)
            from 1 [OF this] False True show ?thesis by simp
          next
            case False
            then have dec: "n - length (acc @ chunk) < n - length acc"
              using \<open>length acc < n\<close> by (cases chunk) auto
            have le: "length (acc @ chunk) \<le> n"
              using c \<open>length acc < n\<close> by (simp add: m_def)
            show ?thesis
              using less.hyps [OF dec le] \<open>\<not> at_eof ops r1\<close> by simp
          qed
          then show ?thesis using \<open>length acc < n\<close> rd False
            by (subst retry_read_loop.simps) (simp add: m_def [symmetric])
        qed
      qed
    qed
    then show ?thesis using less.prems(2) True by simp
  qed
qed

lemma retry_read_returns:
  assumes "bounded_reads ops" and "eventually_delivers ops" and "\<not> at_eof ops r"
  shows "\<exists>bs r'. retry_read ops n r = Some (bs, r') \<and> length bs \<le> n \<and>
                 (length bs < n \<longrightarrow> at_eof ops r')"
proof -
  obtain bs r' where rr: "retry_read_loop ops n [] r = Some (bs, r')"
    and e: "length bs < n \<longrightarrow> at_eof ops r'"
    using retry_read_loop_returns [OF assms(1,2), of "[]" n r] assms(3) by auto
  have "length bs \<le> n"
    using retry_read_loop_bounded [OF rr] assms(1) by simp
  then show ?thesis using rr e by (simp add: retry_read_def)
qed

lemma process_payload_returns:
  assumes bd: "bounded_reads ops" and pr: "eventually_delivers ops"
  shows "\<exists>y. process_payload ops reg ty len tr = Some y"
proof (cases "0 < bytes_missing tr (len + COMMAND_HEADER_LENGTH) \<and> \<not> at_eof ops (reader tr)")
  case False
  then show ?thesis
    by (subst process_payload.simps) (auto split: sum.splits)
next
  case True
  define m where "m = nat (bytes_missing tr (len + COMMAND_HEADER_LENGTH))"
  obtain bs r' where rr: "retry_read ops m (reader tr) = Some (bs, r')"
    and le: "length bs \<le> m" and e: "length bs < m \<longrightarrow> at_eof ops r'"
    using retry_read_returns [OF bd pr, of "reader tr" m] True by blast
  define tr' where "tr' = tr\<lparr>reader := r', read_buffer := read_buffer tr @ bs\<rparr>"
  have step: "process_payload ops reg ty len tr = process_payload ops reg ty len tr'"
    using True rr by (subst process_payload.simps) (simp add: m_def tr'_def)
  have "0 < bytes_missing tr' (len + COMMAND_HEADER_LENGTH) \<longrightarrow> at_eof ops (reader tr')"
    using e True by (auto simp: tr'_def m_def bytes_missing_def)
  then have "\<exists>y. process_payload ops reg ty len tr' = Some y"
    by (subst process_payload.simps) (auto split: sum.splits)
  then show ?thesis by (simp add: step)
qed

lemma process_buffer_returns:
  assumes "bounded_reads ops" and "eventually_delivers ops"
  shows "\<exists>y. process_buffer ops reg tr = Some y"
  using process_payload_returns [OF assms]
  by (auto simp: process_buffer_def split: sum.splits)

lemma recv_returns:
  assumes bd: "bounded_reads ops" and pr: "eventually_delivers ops"
  shows "\<exists>y. recv ops reg tr = Some y"
proof (cases "0 < bytes_missing tr COMMAND_HEADER_LENGTH \<and> \<not> at_eof ops (reader tr)")
  case False
  then show ?thesis
    using process_buffer_returns [OF bd pr, of reg tr]
    by (subst recv.simps) auto
next
  case True
  define m where "m = nat (bytes_missing tr COMMAND_HEADER_LENGTH)"
  obtain bs r' where rr: "retry_read ops m (reader tr) = Some (bs, r')"
    and le: "length bs \<le> m" and e: "length bs < m \<longrightarrow> at_eof ops r'"
    using retry_read_returns [OF bd pr, of "reader tr" m] True by blast
  define tr' where "tr' = tr\<lparr>reader := r', read_buffer := read_buffer tr @ bs\<rparr>"
  have step: "recv ops reg tr = recv ops reg tr'"
    using True rr by (subst recv.simps) (simp add: m_def tr'_def)
  have "0 < bytes_missing tr' COMMAND_HEADER_LENGTH \<longrightarrow> at_eof ops (reader tr')"
    using e True by (auto simp: tr'_def m_def bytes_missing_def)
  then have "\<exists>y. recv ops reg tr' = Some y"
    using process_buffer_returns [OF bd pr, of reg tr']
    by (subst recv.simps) auto
  then show ?thesis by (simp add: step)
qed


lemma recv_header:
  assumes "recv ops reg tr = Some y"
  shows "bounded_reads ops \<longrightarrow> length (read_buffer tr) \<le> 3 \<longrightarrow>
           (fst y = Inr None \<and> length (read_buffer (snd y)) < 3 \<and> at_eof ops (reader (snd y))) \<or>
           (\<exists>hdr. length (read_buffer hdr) = 3 \<and> process_buffer ops reg hdr = Some y)"
proof (rule recv.raw_induct
    [where P = "\<lambda>ops reg tr y.
        bounded_reads ops \<longrightarrow> length (read_buffer tr) \<le> 3 \<longrightarrow>
           (fst y = Inr None \<and> length (read_buffer (snd y)) < 3 \<and> at_eof ops (reader (snd y))) \<or>
           (\<exists>hdr. length (read_buffer hdr) = 3 \<and> process_buffer ops reg hdr = Some y)",
      OF _ assms], goal_cases)
  case (1 f ops reg tr y)
  show ?case
  proof (intro impI)
    assume bd: "bounded_reads ops" and le: "length (read_buffer tr) \<le> 3"
    show "(fst y = Inr None \<and> length (read_buffer (snd y)) < 3 \<and> at_eof ops (reader (snd y))) \<or>
           (\<exists>hdr. length (read_buffer hdr) = 3 \<and> process_buffer ops reg hdr = Some y)"
    proof (cases "bytes_missing tr COMMAND_HEADER_LENGTH > 0")
      case False
      then have l3: "length (read_buffer tr) = 3"
        using le by (simp add: bytes_missing_def COMMAND_HEADER_LENGTH_def)
      from 1(2) False have "process_buffer ops reg tr = Some y" by simp
      with l3 show ?thesis by blast
    next
      case True
      show ?thesis
      proof (cases "at_eof ops (reader tr)")
        case True
        then show ?thesis using 1(2) \<open>bytes_missing tr COMMAND_HEADER_LENGTH > 0\<close>
          by (auto simp: bytes_missing_def COMMAND_HEADER_LENGTH_def)
      next
        case False
        define m where "m = nat (bytes_missing tr COMMAND_HEADER_LENGTH)"
        from 1(2) True False obtain bs r' where
          rr: "retry_read ops m (reader tr) = Some (bs, r')" and
          rec: "f ops reg (tr\<lparr>reader := r', read_buffer := read_buffer tr @ bs\<rparr>) = Some y"
          by (auto simp: m_def bind_eq_Some_conv)
        have "length bs \<le> m" by (rule retry_read_bounded [OF bd rr])
        then have "length (read_buffer tr @ bs) \<le> 3"
          using True by (simp add: m_def bytes_missing_def COMMAND_HEADER_LENGTH_def)
        with 1(1) [OF rec] bd show ?thesis by simp
      qed
    qed
  qed
qed

lemma retry_read_loop_silent:
  assumes "retry_read_loop ops n acc r = Some y"
  shows "ops = SilentReader \<longrightarrow> \<not> length acc < n"
proof (rule retry_read_loop.raw_induct
    [where P = "\<lambda>ops n acc r y. ops = SilentReader \<longrightarrow> \<not> length acc < n", OF _ assms],
    goal_cases)
  case (1 f ops n acc r y)
  show ?case
  proof (intro impI notI)
    assume s: "ops = SilentReader" and lt: "length acc < n"
    then have "f ops n acc r = Some y"
      using 1(2) by (simp add: SilentReader_def)
    from 1(1) [OF this] s lt show False by simp
  qed
qed

lemma recv_silent: "recv SilentReader reg (new_transport ()) = None"
proof -
  have "retry_read SilentReader 3 () = None"
    using retry_read_loop_silent [of SilentReader 3 "[]" "()"]
    by (cases "retry_read_loop SilentReader 3 [] ()") (auto simp: retry_read_def)
  then show ?thesis
    by (subst recv.simps)
       (simp add: bytes_missing_def new_transport_def COMMAND_HEADER_LENGTH_def SilentReader_def)
qed

lemma bounded_reads_SilentReader: "bounded_reads SilentReader"
  by (simp add: bounded_reads_def SilentReader_def)

lemma stream_reader_bounded: "stream_reader ops \<Longrightarrow> bounded_reads ops"
  unfolding bounded_reads_def
proof (intro allI impI)
  fix n r assume sr: "stream_reader ops" and n: "0 < (n::nat)"
  obtain k where "read ops n r = (take k r, drop k r)" "k \<le> n"
    using stream_readerD [OF sr n] by blast
  then show "length (fst (read ops n r)) \<le> n" by simp
qed

lemma stutters_stream_reader:
  assumes "stream_reader ops" and "0 < n"
  shows "stutters ops n = {}"
proof -
  have False if "(r', r) \<in> stutters ops n" for r' r
  proof -
    from that have ne: "r \<noteq> []" and rd: "read ops n r = ([], r')" and ne': "r' \<noteq> []"
      by (simp_all add: stutters_def stream_reader_eof [OF assms(1)])
    obtain k where "read ops n r = (take k r, drop k r)" and "r \<noteq> [] \<Longrightarrow> 0 < k"
      using stream_readerD [OF assms] by blast
    with rd ne show False by auto
  qed
  then show ?thesis by auto
qed

lemma stream_reader_delivers: "stream_reader ops \<Longrightarrow> eventually_delivers ops"
  by (simp add: eventually_delivers_def stutters_stream_reader)

lemma bounded_reads_StutteringReader: "bounded_reads StutteringReader"
  by (simp add: bounded_reads_def StutteringReader_def split: prod.splits)

lemma eventually_delivers_StutteringReader: "eventually_delivers StutteringReader"
  unfolding eventually_delivers_def
proof (intro allI impI)
  fix n :: nat assume "0 < n"
  have "stutters StutteringReader n \<subseteq> measure (\<lambda>(ready, data). if ready then 0 else 1)"
    using \<open>0 < n\<close>
    by (auto simp: stutters_def StutteringReader_def split: if_splits)
  then show "wf (stutters StutteringReader n)"
    by (rule wf_subset [OF wf_measure])
qed

lemma retry_read_StutteringReader:
  assumes "0 < n" and "d \<noteq> []"
  shows "retry_read StutteringReader n (False, d) = Some (take n d, (False, drop n d))"
proof -
  have 1: "retry_read_loop StutteringReader n [] (False, d)
             = retry_read_loop StutteringReader n [] (True, d)"
    using assms by (subst retry_read_loop.simps) (simp add: StutteringReader_def)
  have 2: "retry_read_loop StutteringReader n [] (True, d) = Some (take n d, (False, drop n d))"
  proof (cases "drop n d = []")
    case True
    then show ?thesis using assms
      by (subst retry_read_loop.simps) (simp add: StutteringReader_def)
  next
    case False
    then have "length (take n d) = n" by simp
    then have "retry_read_loop StutteringReader n (take n d) (False, drop n d)
                 = Some (take n d, (False, drop n d))"
      by (subst retry_read_loop.simps) simp
    then show ?thesis using assms False
      by (subst retry_read_loop.simps) (simp add: StutteringReader_def)
  qed
  show ?thesis by (simp add: retry_read_def 1 2)
qed

lemma at_eof_StutteringReader: "at_eof StutteringReader (ready, d) = (d = [])"
  by (simp add: StutteringReader_def)

lemma recv_StutteringReader_Color:
  "recv StutteringReader initial_registry
     (new_transport (False, [0x20, 0x00, 0x03, 0x01, 0x02, 0x03]))
   = Some (Inr (Some (init CommandColor (Some [0x01, 0x02, 0x03]))),
           \<lparr>reader = (False, []), read_buffer = []\<rparr>)"
proof -
  have pp2: "process_payload StutteringReader initial_registry 32 3
            \<lparr>reader = (False, []), read_buffer = [0x20, 0x00, 0x03, 0x01, 0x02, 0x03]\<rparr>
          = Some (Inr (Some (init CommandColor (Some [0x01, 0x02, 0x03]))),
                  \<lparr>reader = (False, []), read_buffer = []\<rparr>)"
    by (subst process_payload.simps)
       (simp add: bytes_missing_def COMMAND_HEADER_LENGTH_def unpack_from_s_def consume_def
          decode_def initial_registry_eq)
  have pp1: "process_payload StutteringReader initial_registry 32 3
            \<lparr>reader = (False, [0x01, 0x02, 0x03]), read_buffer = [0x20, 0x00, 0x03]\<rparr>
          = Some (Inr (Some (init CommandColor (Some [0x01, 0x02, 0x03]))),
                  \<lparr>reader = (False, []), read_buffer = []\<rparr>)"
    by (subst process_payload.simps)
       (simp add: bytes_missing_def COMMAND_HEADER_LENGTH_def retry_read_StutteringReader pp2
          at_eof_StutteringReader)
  have r2: "recv StutteringReader initial_registry
            \<lparr>reader = (False, [0x01, 0x02, 0x03]), read_buffer = [0x20, 0x00, 0x03]\<rparr>
          = Some (Inr (Some (init CommandColor (Some [0x01, 0x02, 0x03]))),
                  \<lparr>reader = (False, []), read_buffer = []\<rparr>)"
    by (subst recv.simps)
       (simp add: bytes_missing_def COMMAND_HEADER_LENGTH_def process_buffer_def unpack_BH_def
          pp1)
  show ?thesis
    by (subst recv.simps)
       (simp add: new_transport_def bytes_missing_def COMMAND_HEADER_LENGTH_def
          retry_read_StutteringReader r2 at_eof_StutteringReader)
qed

text \<open>
  \<^bold>\<open>C10\<close>, as stated, does not hold, in two ways. On a reader that returns no byte and
  is never at end-of-stream (its reads return at most what is asked), \<^verbatim>\<open>recv\<close> does not
  return. And a call of \<^verbatim>\<open>recv\<close> that follows a call ended by a truncated payload finds
  five bytes in the buffer when it parses the header, and raises \<^verbatim>\<open>struct.error\<close>.
\<close>

theorem recv_not_total_counterexample:
  "bounded_reads SilentReader \<and>
   recv SilentReader initial_registry (new_transport ()) = None \<and>
   bounded_reads DefaultReader \<and>
   recv DefaultReader initial_registry (new_transport [0x20, 0x00, 0x03, 0x01, 0x02])
     = Some (Inr None, \<lparr>reader = [], read_buffer = [0x20, 0x00, 0x03, 0x01, 0x02]\<rparr>) \<and>
   recv DefaultReader initial_registry
       \<lparr>reader = [], read_buffer = [0x20, 0x00, 0x03, 0x01, 0x02]\<rparr>
     = Some (Inl StructError, \<lparr>reader = [], read_buffer = [0x20, 0x00, 0x03, 0x01, 0x02]\<rparr>)"
proof -
  have b: "length (read_buffer (new_transport [0x20, 0x00, 0x03, 0x01, 0x02 :: byte])) \<le> 3"
    by (simp add: new_transport_def)
  have first: "recv DefaultReader initial_registry (new_transport [0x20, 0x00, 0x03, 0x01, 0x02])
     = Some (Inr None, \<lparr>reader = [], read_buffer = [0x20, 0x00, 0x03, 0x01, 0x02]\<rparr>)"
    using recv_stream [OF stream_reader_DefaultReader b, of initial_registry]
    by (simp add: recv_on_stream_def new_transport_def COMMAND_HEADER_LENGTH_def
        frame_on_stream_def unpack_BH_def payload_on_stream_def)
  have second: "recv DefaultReader initial_registry
       \<lparr>reader = [], read_buffer = [0x20, 0x00, 0x03, 0x01, 0x02]\<rparr>
     = Some (Inl StructError, \<lparr>reader = [], read_buffer = [0x20, 0x00, 0x03, 0x01, 0x02]\<rparr>)"
    by (subst recv.simps)
       (simp add: bytes_missing_def COMMAND_HEADER_LENGTH_def process_buffer_def unpack_BH_def)
  show ?thesis
    using first second recv_silent bounded_reads_SilentReader
      stream_reader_bounded [OF stream_reader_DefaultReader]
    by simp
qed

text \<open>
  \<^bold>\<open>C10\<close>, amended. For every reader whose reads of \<open>n > 0\<close> bytes return at most \<open>n\<close>
  bytes, consider a call of \<^verbatim>\<open>recv\<close> on a transport that buffers at most 3 bytes (a
  fresh transport, or one whose last call returned a command). If the call returns, it
  has not raised, and the buffer is empty when it returns a command. It has either
  returned \<^verbatim>\<open>None\<close> on a header cut short by the end of the stream, or it has returned
  what \<^verbatim>\<open>_process_buffer\<close> returns on a buffer of exactly 3 bytes, so that the exact-size
  unpack of the header cannot fail. The call does return when the reader eventually
  delivers, that is, when it answers no request with empty reads for ever without
  reaching end-of-stream.
\<close>

theorem recv_safe:
  assumes "bounded_reads ops" and "length (read_buffer tr) \<le> COMMAND_HEADER_LENGTH"
  shows "(\<forall>res tr'. recv ops reg tr = Some (res, tr') \<longrightarrow>
            (\<exists>c. res = Inr c \<and> (c \<noteq> None \<longrightarrow> read_buffer tr' = [])) \<and>
            ((res = Inr None \<and> length (read_buffer tr') < COMMAND_HEADER_LENGTH \<and>
              at_eof ops (reader tr')) \<or>
             (\<exists>hdr. length (read_buffer hdr) = COMMAND_HEADER_LENGTH \<and>
                    process_buffer ops reg hdr = Some (res, tr')))) \<and>
         (eventually_delivers ops \<longrightarrow> (\<exists>c tr'. recv ops reg tr = Some (Inr c, tr')))"
proof -
  have safe: "\<exists>c. res = Inr c \<and> (c \<noteq> None \<longrightarrow> read_buffer tr' = [])"
    if "recv ops reg tr = Some (res, tr')" for res tr'
    using recv_safe_aux [OF that] assms
    by (simp add: recv_ok_def COMMAND_HEADER_LENGTH_def)
  have hdr: "(res = Inr None \<and> length (read_buffer tr') < COMMAND_HEADER_LENGTH \<and>
              at_eof ops (reader tr')) \<or>
             (\<exists>hdr. length (read_buffer hdr) = COMMAND_HEADER_LENGTH \<and>
                    process_buffer ops reg hdr = Some (res, tr'))"
    if "recv ops reg tr = Some (res, tr')" for res tr'
    using recv_header [OF that] assms
    by (simp add: COMMAND_HEADER_LENGTH_def)
  have "\<exists>c tr'. recv ops reg tr = Some (Inr c, tr')" if ev: "eventually_delivers ops"
  proof -
    obtain res tr' where r: "recv ops reg tr = Some (res, tr')"
      using recv_returns [OF assms(1) ev, of reg tr] by auto
    with safe [OF r] show ?thesis by auto
  qed
  with safe hdr show ?thesis by blast
qed

theorem recv_safe_witness:
  "bounded_reads StutteringReader \<and> eventually_delivers StutteringReader \<and>
   length (read_buffer (new_transport (False, [0x20, 0x00, 0x03, 0x01, 0x02, 0x03 :: byte])))
     \<le> COMMAND_HEADER_LENGTH \<and>
   recv StutteringReader initial_registry
       (new_transport (False, [0x20, 0x00, 0x03, 0x01, 0x02, 0x03]))
     = Some (Inr (Some (init CommandColor (Some [0x01, 0x02, 0x03]))),
             \<lparr>reader = (False, []), read_buffer = []\<rparr>) \<and>
   (\<exists>hdr. length (read_buffer hdr) = COMMAND_HEADER_LENGTH \<and>
          process_buffer StutteringReader initial_registry hdr
            = Some (Inr (Some (init CommandColor (Some [0x01, 0x02, 0x03]))),
                    \<lparr>reader = (False, []), read_buffer = []\<rparr>))"
proof -
  have h1: "bounded_reads StutteringReader" by (rule bounded_reads_StutteringReader)
  have h2: "eventually_delivers StutteringReader" by (rule eventually_delivers_StutteringReader)
  have h3: "length (read_buffer (new_transport (False, [0x20, 0x00, 0x03, 0x01, 0x02, 0x03 :: byte])))
              \<le> COMMAND_HEADER_LENGTH"
    by (simp add: new_transport_def)
  show ?thesis
    using recv_safe [OF h1 h3, of initial_registry] h1 h2 h3 recv_StutteringReader_Color
    by auto
qed

section \<open>The client session\<close>

lemma raises_only_ExceptionD:
  "raises_only_Exception f \<Longrightarrow> f c h = (Raised e, h') \<Longrightarrow> is_Exception e"
  unfolding raises_only_Exception_def by (metis fst_conv)

lemma receive_loop_to_returning:
  assumes "receive_loop ops reg cb cl tr h = Some y"
  shows "\<forall>f. cb = Some f \<longrightarrow> raises_only_Exception f \<longrightarrow>
           receive_loop ops reg (Some (returning f)) cl tr h = Some y"
proof (rule receive_loop.raw_induct
    [where P = "\<lambda>ops reg cb cl tr h y. \<forall>f. cb = Some f \<longrightarrow> raises_only_Exception f \<longrightarrow>
           receive_loop ops reg (Some (returning f)) cl tr h = Some y", OF _ assms], goal_cases)
  case (1 g ops reg cb cl tr h y)
  show ?case
  proof (intro allI impI)
    fix f assume cb: "cb = Some f" and ro: "raises_only_Exception f"
    show "receive_loop ops reg (Some (returning f)) cl tr h = Some y"
    proof (cases "running cl \<and> \<not> at_eof ops (reader tr)")
      case False
      then show ?thesis using 1(2) by (subst receive_loop.simps) auto
    next
      case True
      then obtain res tr' where rv: "recv ops reg tr = Some (res, tr')"
        using 1(2) by (auto simp: bind_eq_Some_conv)
      show ?thesis
      proof (cases res)
        case (Inl e)
        then show ?thesis using 1(2) True rv by (subst receive_loop.simps) auto
      next
        case (Inr c)
        show ?thesis
        proof (cases c)
          case None
          then have "g ops reg cb cl tr' h = Some y" using 1(2) True rv Inr by simp
          from 1(1) [OF this] cb ro
          have "receive_loop ops reg (Some (returning f)) cl tr' h = Some y" by simp
          then show ?thesis using True rv Inr None by (subst receive_loop.simps) simp
        next
          case (Some command)
          obtain out h' where fc: "f command h = (out, h')" by (cases "f command h")
          have "g ops reg cb cl tr' h' = Some y"
          proof (cases out)
            case Returned
            then show ?thesis using 1(2) True rv Inr Some cb fc by simp
          next
            case (Raised e)
            then have "is_Exception e" using raises_only_ExceptionD [OF ro] fc by simp
            then show ?thesis using 1(2) True rv Inr Some cb fc Raised by simp
          qed
          from 1(1) [OF this] cb ro
          have "receive_loop ops reg (Some (returning f)) cl tr' h' = Some y" by simp
          then show ?thesis using True rv Inr Some fc
            by (subst receive_loop.simps) (simp add: returning_def)
        qed
      qed
    qed
  qed
qed

lemma receive_loop_from_returning:
  assumes "receive_loop ops reg cb cl tr h = Some y"
  shows "\<forall>f. cb = Some (returning f) \<longrightarrow> raises_only_Exception f \<longrightarrow>
           receive_loop ops reg (Some f) cl tr h = Some y"
proof (rule receive_loop.raw_induct
    [where P = "\<lambda>ops reg cb cl tr h y. \<forall>f. cb = Some (returning f) \<longrightarrow> raises_only_Exception f \<longrightarrow>
           receive_loop ops reg (Some f) cl tr h = Some y", OF _ assms], goal_cases)
  case (1 g ops reg cb cl tr h y)
  show ?case
  proof (intro allI impI)
    fix f assume cb: "cb = Some (returning f)" and ro: "raises_only_Exception f"
    show "receive_loop ops reg (Some f) cl tr h = Some y"
    proof (cases "running cl \<and> \<not> at_eof ops (reader tr)")
      case False
      then show ?thesis using 1(2) by (subst receive_loop.simps) auto
    next
      case True
      then obtain res tr' where rv: "recv ops reg tr = Some (res, tr')"
        using 1(2) by (auto simp: bind_eq_Some_conv)
      show ?thesis
      proof (cases res)
        case (Inl e)
        then show ?thesis using 1(2) True rv by (subst receive_loop.simps) auto
      next
        case (Inr c)
        show ?thesis
        proof (cases c)
          case None
          then have "g ops reg cb cl tr' h = Some y" using 1(2) True rv Inr by simp
          from 1(1) [OF this] cb ro
          have "receive_loop ops reg (Some f) cl tr' h = Some y" by simp
          then show ?thesis using True rv Inr None by (subst receive_loop.simps) simp
        next
          case (Some command)
          obtain out h' where fc: "f command h = (out, h')" by (cases "f command h")
          have "g ops reg cb cl tr' h' = Some y"
            using 1(2) True rv Inr Some cb fc by (simp add: returning_def)
          from 1(1) [OF this] cb ro
          have rec: "receive_loop ops reg (Some f) cl tr' h' = Some y" by simp
          show ?thesis
          proof (cases out)
            case Returned
            then show ?thesis using True rv Inr Some fc rec
              by (subst receive_loop.simps) simp
          next
            case (Raised e)
            then have "is_Exception e" using raises_only_ExceptionD [OF ro] fc by simp
            then show ?thesis using True rv Inr Some fc rec Raised
              by (subst receive_loop.simps) simp
          qed
        qed
      qed
    qed
  qed
qed

lemma receive_loop_returning:
  assumes "raises_only_Exception f"
  shows "receive_loop ops reg (Some f) cl tr h
           = receive_loop ops reg (Some (returning f)) cl tr h"
proof (cases "receive_loop ops reg (Some f) cl tr h")
  case (Some y)
  then show ?thesis using receive_loop_to_returning [OF Some] assms by simp
next
  case None
  show ?thesis
  proof (cases "receive_loop ops reg (Some (returning f)) cl tr h")
    case None
    then show ?thesis using \<open>receive_loop ops reg (Some f) cl tr h = None\<close> by simp
  next
    case (Some y)
    then show ?thesis using receive_loop_from_returning [OF Some] assms None by simp
  qed
qed


lemma loop_to_returning:
  assumes "loop opn ops reg cb cl net h = Some y"
  shows "\<forall>f. cb = Some f \<longrightarrow> raises_only_Exception f \<longrightarrow>
           loop opn ops reg (Some (returning f)) cl net h = Some y"
proof (rule loop.raw_induct
    [where P = "\<lambda>opn ops reg cb cl net h y. \<forall>f. cb = Some f \<longrightarrow> raises_only_Exception f \<longrightarrow>
           loop opn ops reg (Some (returning f)) cl net h = Some y", OF _ assms], goal_cases)
  case (1 g opn ops reg cb cl net h y)
  show ?case
  proof (intro allI impI)
    fix f assume cb: "cb = Some f" and ro: "raises_only_Exception f"
    note rl = receive_loop_returning [OF ro, symmetric]
    show "loop opn ops reg (Some (returning f)) cl net h = Some y"
    proof (cases "running cl")
      case False
      then show ?thesis using 1(2) by (subst loop.simps) auto
    next
      case True
      then obtain t cl' net' where cn: "connect opn cl net = Some (t, cl', net')"
        using 1(2) by (auto simp: bind_eq_Some_conv)
      show ?thesis
      proof (cases t)
        case None
        then show ?thesis using 1(2) True cn by (subst loop.simps) auto
      next
        case (Some tr)
        then obtain res tr' h' where
          rc: "receive_loop ops reg (Some f) cl' tr h = Some (res, tr', h')"
          using 1(2) True cn cb by (auto simp: bind_eq_Some_conv)
        show ?thesis
        proof (cases res)
          case (Inl e)
          then show ?thesis using 1(2) True cn Some rc cb
            by (subst loop.simps) (simp add: rl)
        next
          case (Inr u)
          then have "g opn ops reg cb cl' net' h' = Some y"
            using 1(2) True cn Some rc cb by simp
          from 1(1) [OF this] cb ro
          have "loop opn ops reg (Some (returning f)) cl' net' h' = Some y" by simp
          then show ?thesis using True cn Some rc Inr
            by (subst loop.simps) (simp add: rl)
        qed
      qed
    qed
  qed
qed

lemma loop_from_returning:
  assumes "loop opn ops reg cb cl net h = Some y"
  shows "\<forall>f. cb = Some (returning f) \<longrightarrow> raises_only_Exception f \<longrightarrow>
           loop opn ops reg (Some f) cl net h = Some y"
proof (rule loop.raw_induct
    [where P = "\<lambda>opn ops reg cb cl net h y. \<forall>f. cb = Some (returning f) \<longrightarrow> raises_only_Exception f \<longrightarrow>
           loop opn ops reg (Some f) cl net h = Some y", OF _ assms], goal_cases)
  case (1 g opn ops reg cb cl net h y)
  show ?case
  proof (intro allI impI)
    fix f assume cb: "cb = Some (returning f)" and ro: "raises_only_Exception f"
    note rl = receive_loop_returning [OF ro]
    show "loop opn ops reg (Some f) cl net h = Some y"
    proof (cases "running cl")
      case False
      then show ?thesis using 1(2) by (subst loop.simps) auto
    next
      case True
      then obtain t cl' net' where cn: "connect opn cl net = Some (t, cl', net')"
        using 1(2) by (auto simp: bind_eq_Some_conv)
      show ?thesis
      proof (cases t)
        case None
        then show ?thesis using 1(2) True cn by (subst loop.simps) auto
      next
        case (Some tr)
        then obtain res tr' h' where
          rc: "receive_loop ops reg (Some (returning f)) cl' tr h = Some (res, tr', h')"
          using 1(2) True cn cb by (auto simp: bind_eq_Some_conv)
        show ?thesis
        proof (cases res)
          case (Inl e)
          then show ?thesis using 1(2) True cn Some rc cb
            by (subst loop.simps) (simp add: rl)
        next
          case (Inr u)
          then have "g opn ops reg cb cl' net' h' = Some y"
            using 1(2) True cn Some rc cb by simp
          from 1(1) [OF this] cb ro
          have "loop opn ops reg (Some f) cl' net' h' = Some y" by simp
          then show ?thesis using True cn Some rc Inr
            by (subst loop.simps) (simp add: rl)
        qed
      qed
    qed
  qed
qed

lemma loop_returning:
  assumes "raises_only_Exception f"
  shows "loop opn ops reg (Some f) cl net h = loop opn ops reg (Some (returning f)) cl net h"
proof (cases "loop opn ops reg (Some f) cl net h")
  case (Some y)
  then show ?thesis using loop_to_returning [OF Some] assms by simp
next
  case None
  show ?thesis
  proof (cases "loop opn ops reg (Some (returning f)) cl net h")
    case None
    then show ?thesis using \<open>loop opn ops reg (Some f) cl net h = None\<close> by simp
  next
    case (Some y)
    then show ?thesis using loop_from_returning [OF Some] assms None by simp
  qed
qed

lemma receive_loop_returned:
  assumes "running cl" and "\<not> at_eof ops (reader tr)"
    and "recv ops reg tr = Some (Inr (Some command), tr')"
    and "f command h = (Returned, h')"
  shows "receive_loop ops reg (Some f) cl tr h = receive_loop ops reg (Some f) cl tr' h'"
  using assms by (subst receive_loop.simps) simp

lemma receive_loop_raised:
  assumes "running cl" and "\<not> at_eof ops (reader tr)"
    and "recv ops reg tr = Some (Inr (Some command), tr')"
    and "f command h = (Raised e, h')" and "is_Exception e"
  shows "receive_loop ops reg (Some f) cl tr h = receive_loop ops reg (Some f) cl tr' h'"
  using assms by (subst receive_loop.simps) simp

lemma receive_loop_ends:
  assumes "\<not> running cl \<or> at_eof ops (reader tr)"
  shows "receive_loop ops reg cb cl tr h = Some (Inr (), tr, h)"
  using assms by (subst receive_loop.simps) auto

text \<open>
  \<^bold>\<open>C9\<close>. Let the callback raise nothing but instances of \<^verbatim>\<open>Exception\<close>. When it
  raises on a decoded command, the receive loop goes on from the transport as \<^verbatim>\<open>recv\<close>
  left it: the exception does not leave the loop, and the commands that follow on the
  connection are received and passed to the callback. Altogether the receive loop and
  the whole session \<^verbatim>\<open>LanternClient.loop\<close> behave as with a callback that has the same
  effect and never raises: they end or go on for ever in the same cases, with the same
  result, client, network and callback state.
\<close>

theorem handler_failure_isolated:
  assumes "raises_only_Exception f"
  shows "(\<forall>command s e s' tr'.
            running cl \<and> \<not> at_eof ops (reader tr) \<and>
            recv ops reg tr = Some (Inr (Some command), tr') \<and>
            f command s = (Raised e, s') \<longrightarrow>
            receive_loop ops reg (Some f) cl tr s = receive_loop ops reg (Some f) cl tr' s') \<and>
         receive_loop ops reg (Some f) cl tr h
           = receive_loop ops reg (Some (returning f)) cl tr h \<and>
         loop open_connection ops reg (Some f) cl net h
           = loop open_connection ops reg (Some (returning f)) cl net h"
proof (intro conjI allI impI)
  fix command s e s' tr'
  assume a: "running cl \<and> \<not> at_eof ops (reader tr) \<and>
            recv ops reg tr = Some (Inr (Some command), tr') \<and>
            f command s = (Raised e, s')"
  then have "is_Exception e" using raises_only_ExceptionD [OF assms] by blast
  then show "receive_loop ops reg (Some f) cl tr s = receive_loop ops reg (Some f) cl tr' s'"
    using a receive_loop_raised [of cl ops tr reg command tr' f s e s'] by simp
next
  show "receive_loop ops reg (Some f) cl tr h
           = receive_loop ops reg (Some (returning f)) cl tr h"
    by (rule receive_loop_returning [OF assms])
next
  show "loop open_connection ops reg (Some f) cl net h
           = loop open_connection ops reg (Some (returning f)) cl net h"
    by (rule loop_returning [OF assms])
qed

theorem handler_failure_isolated_witness:
  "raises_only_Exception failing_callback \<and>
   loop (serving [0x20, 0x00, 0x03, 10, 20, 30, 0x12, 0x00, 0x00, 0x13, 0x00, 0x00,
                  0x20, 0x00, 0x03, 40, 50, 60])
     OneByteAtATimeReader initial_registry (Some failing_callback)
     \<lparr>running = True, num_connections_to_process = Some 1\<rparr> () []
   = Some (Inr (), \<lparr>running = True, num_connections_to_process = Some 0\<rparr>, (),
           [init CommandColor (Some [10, 20, 30]), init CommandOn None,
            init CommandOff None, init CommandColor (Some [40, 50, 60])])"
proof -
  let ?d = "[0x20, 0x00, 0x03, 10, 20, 30, 0x12, 0x00, 0x00, 0x13, 0x00, 0x00,
             0x20, 0x00, 0x03, 40, 50, 60] :: byte list"
  let ?c0 = "\<lparr>running = True, num_connections_to_process = Some 0\<rparr>"
  let ?c1 = "\<lparr>running = True, num_connections_to_process = Some 1\<rparr>"
  let ?g = "Some (returning failing_callback)"
  let ?RL = "receive_loop OneByteAtATimeReader initial_registry ?g ?c0"
  have h: "raises_only_Exception failing_callback"
    by (simp add: raises_only_Exception_def failing_callback_def)
  have eof: "\<And>x xs. \<not> at_eof OneByteAtATimeReader (reader (new_transport (x # xs)))"
    "at_eof OneByteAtATimeReader (reader (new_transport []))"
    by (simp_all add: OneByteAtATimeReader_def DefaultReader_def new_transport_def)
  have g: "\<And>c s. returning failing_callback c s = (Returned, s @ [c])"
    by (simp add: returning_def failing_callback_def)
  have "?RL (new_transport ?d) []
        = ?RL (new_transport [0x12, 0x00, 0x00, 0x13, 0x00, 0x00, 0x20, 0x00, 0x03, 40, 50, 60])
            [init CommandColor (Some [10, 20, 30])]"
    by (rule receive_loop_returned [OF _ eof(1) recv_OneByte_four_frames(1)])
       (simp_all add: g)
  also have "\<dots> = ?RL (new_transport [0x13, 0x00, 0x00, 0x20, 0x00, 0x03, 40, 50, 60])
            [init CommandColor (Some [10, 20, 30]), init CommandOn None]"
    by (rule receive_loop_returned [OF _ eof(1) recv_OneByte_four_frames(2)])
       (simp_all add: g)
  also have "\<dots> = ?RL (new_transport [0x20, 0x00, 0x03, 40, 50, 60])
            [init CommandColor (Some [10, 20, 30]), init CommandOn None, init CommandOff None]"
    by (rule receive_loop_returned [OF _ eof(1) recv_OneByte_four_frames(3)])
       (simp_all add: g)
  also have "\<dots> = ?RL (new_transport [])
            [init CommandColor (Some [10, 20, 30]), init CommandOn None, init CommandOff None,
             init CommandColor (Some [40, 50, 60])]"
    by (rule receive_loop_returned [OF _ eof(1) recv_OneByte_four_frames(4)])
       (simp_all add: g)
  also have "\<dots> = Some (Inr (), new_transport [],
            [init CommandColor (Some [10, 20, 30]), init CommandOn None, init CommandOff None,
             init CommandColor (Some [40, 50, 60])])"
    by (rule receive_loop_ends) (simp add: eof(2))
  finally have rl: "?RL (new_transport ?d) [] = Some (Inr (), new_transport [],
            [init CommandColor (Some [10, 20, 30]), init CommandOn None, init CommandOff None,
             init CommandColor (Some [40, 50, 60])])" .
  have c1: "connect (serving ?d) ?c1 () = Some (Some (new_transport ?d), ?c0, ())"
    by (subst connect.simps) (simp add: serving_def)
  have c0: "connect (serving ?d) ?c0 () = Some (None, ?c0, ())"
    by (subst connect.simps) simp
  have last: "\<And>s. loop (serving ?d) OneByteAtATimeReader initial_registry ?g ?c0 () s
                = Some (Inr (), ?c0, (), s)"
    by (subst loop.simps) (simp add: c0)
  have "loop (serving ?d) OneByteAtATimeReader initial_registry ?g ?c1 () []
        = Some (Inr (), ?c0, (),
           [init CommandColor (Some [10, 20, 30]), init CommandOn None,
            init CommandOff None, init CommandColor (Some [40, 50, 60])])"
    by (subst loop.simps) (simp add: c1 rl last)
  then show ?thesis
    using h handler_failure_isolated [OF h, of ?c1 OneByteAtATimeReader "new_transport []"
        initial_registry "[]" "serving ?d" "()"]
    by simp
qed

end
